theory Spec2Isabelle
  imports Main "HOL-Library.Word" "HOL-Library.AList"
begin

unbundle bit_operations_syntax

section \<open>Time\<close>

text \<open>
  A Go \<^verbatim>\<open>time.Time\<close> is modelled by the instant it denotes: an integer count of
  nanoseconds, with 0 the zero time (the value of an unset \<^verbatim>\<open>time.Time\<close>, the one
  \<^verbatim>\<open>IsZero\<close> recognises). \<^verbatim>\<open>Equal\<close> and \<^verbatim>\<open>Before\<close> compare instants, so they are
  \<open>=\<close> and \<open><\<close>. A \<^verbatim>\<open>time.Duration\<close> is an int64 of nanoseconds; \<^verbatim>\<open>Time.Sub\<close>
  saturates at the largest and smallest duration.
\<close>

type_synonym time = int
type_synonym duration = int

definition maxDuration :: duration where
  "maxDuration = 2 ^ 63 - 1"

definition minDuration :: duration where
  "minDuration = - (2 ^ 63)"

definition IsZero :: "time \<Rightarrow> bool" where
  "IsZero t = (t = 0)"

definition time_Sub :: "time \<Rightarrow> time \<Rightarrow> duration" where
  "time_Sub t u =
     (if t - u > maxDuration then maxDuration
      else if t - u < minDuration then minDuration
      else t - u)"

text \<open>\<^verbatim>\<open>time.Since(t)\<close> is \<^verbatim>\<open>time.Now().Sub(t)\<close>; the clock reading is an argument.\<close>

definition time_Since :: "time \<Rightarrow> time \<Rightarrow> duration" where
  "time_Since now t = time_Sub now t"

section \<open>File metadata\<close>

text \<open>
  \<^verbatim>\<open>fs.FileInfo\<close>, with the methods the program calls. \<open>Sys\<close> is \<open>Some ino\<close> when
  \<^verbatim>\<open>info.Sys()\<close> is a \<^verbatim>\<open>*syscall.Stat_t\<close> whose inode number is \<open>ino\<close>.
\<close>

record FileInfo =
  Name :: string
  ModTime :: time
  IsDir :: bool
  Sys :: "64 word option"

section \<open>The processed-file cache (internal/state/state.go)\<close>

record Entry =
  Inode :: "64 word"
  Mtime :: time
  Added :: time

record Cache =
  entries :: "string \<rightharpoonup> Entry"
  ttl :: duration

definition NewCache :: "duration \<Rightarrow> Cache" where
  "NewCache d = \<lparr>entries = Map.empty, ttl = d\<rparr>"

definition getInode :: "FileInfo \<Rightarrow> 64 word" where
  "getInode info = (case Sys info of Some ino \<Rightarrow> ino | None \<Rightarrow> 0)"

text \<open>\<^verbatim>\<open>Cache.Has\<close>; \<open>now\<close> is what \<^verbatim>\<open>time.Now()\<close> returns inside the call.\<close>

definition Cache_Has :: "Cache \<Rightarrow> string \<Rightarrow> FileInfo \<Rightarrow> time \<Rightarrow> bool \<times> Cache" where
  "Cache_Has c path info now =
     (case entries c path of
        None \<Rightarrow> (False, c)
      | Some entry \<Rightarrow>
          if time_Since now (Added entry) > ttl c
          then (False, c\<lparr>entries := (entries c)(path := None)\<rparr>)
          else (Inode entry = getInode info \<and> Mtime entry = ModTime info, c))"

definition Cache_Add :: "Cache \<Rightarrow> string \<Rightarrow> FileInfo \<Rightarrow> time \<Rightarrow> Cache" where
  "Cache_Add c path info now =
     c\<lparr>entries := (entries c)(path \<mapsto>
          \<lparr>Inode = getInode info, Mtime = ModTime info, Added = now\<rparr>)\<rparr>"

definition Cache_Remove :: "Cache \<Rightarrow> string \<Rightarrow> Cache" where
  "Cache_Remove c path = c\<lparr>entries := (entries c)(path := None)\<rparr>"

definition Cache_Clean :: "Cache \<Rightarrow> time \<Rightarrow> Cache" where
  "Cache_Clean c now =
     c\<lparr>entries := (\<lambda>path. case entries c path of
          None \<Rightarrow> None
        | Some entry \<Rightarrow> if time_Sub now (Added entry) > ttl c then None else Some entry)\<rparr>"

section \<open>Directory walks of the Go library (path/filepath)\<close>

text \<open>
  \<^verbatim>\<open>fs.DirEntry\<close>: \<open>de_Info\<close> is \<open>None\<close> when \<^verbatim>\<open>d.Info()\<close> returns an error (the
  entry vanished after the directory was read).
\<close>

datatype DirEntry = DirEntry (de_Name: string) (de_IsDir: bool) (de_Info: "FileInfo option")

text \<open>
  The filesystem as one walk observes it: the entry of a node, the entries that
  \<^verbatim>\<open>os.ReadDir\<close> returns for it (each with its own subtree) and whether \<^verbatim>\<open>os.ReadDir\<close>
  also returned an error. For \<^verbatim>\<open>filepath.Walk\<close>, which calls \<^verbatim>\<open>lstat\<close> on every name,
  \<open>de_Info\<close> is the result of that call.
\<close>

datatype fsnode = FsNode (node_entry: DirEntry) (node_children: "fsnode list") (node_readdir_err: bool)

datatype oserror = LstatError | ReadDirError

text \<open>The errors a walk callback may return: the two sentinels, or anything else.\<close>

datatype werror = SkipDir | SkipAll | WalkErr string

text \<open>
  A call of a \<^verbatim>\<open>fs.WalkDirFunc\<close>: \<^verbatim>\<open>fn(path, d, nil)\<close> is \<open>WalkEntry d\<close>, and
  \<^verbatim>\<open>fn(path, d, err)\<close> with a non-nil \<open>err\<close> is \<open>WalkFailure d err\<close>, where \<open>d\<close> is
  \<open>None\<close> for the nil entry that the root gets when \<^verbatim>\<open>os.Lstat\<close> fails.
\<close>

datatype walk_call = WalkEntry DirEntry | WalkFailure "DirEntry option" oserror

text \<open>
  \<^verbatim>\<open>filepath.Join(dir, name)\<close> for a cleaned directory path and a name returned by
  reading that directory (no separator in it, neither \<^verbatim>\<open>.\<close> nor \<^verbatim>\<open>..\<close>).
\<close>

definition Join :: "string \<Rightarrow> string \<Rightarrow> string" where
  "Join dir name =
     (if dir = ''/'' then ''/'' @ name
      else if dir = ''.'' \<or> dir = [] then name
      else dir @ ''/'' @ name)"

definition HasPrefix :: "string \<Rightarrow> string \<Rightarrow> bool" where
  "HasPrefix s pre = (length pre \<le> length s \<and> take (length pre) s = pre)"

text \<open>
  \<^verbatim>\<open>filepath.WalkDir\<close> and its helper \<^verbatim>\<open>walkDir\<close>, from the documentation and source of
  the standard library (they are not part of this repository). The callback is called
  on a node before its children; \<open>SkipDir\<close> from a directory skips its children,
  \<open>SkipDir\<close> from a file skips the remaining entries of the parent, any other error stops
  the walk and is returned.
\<close>

fun walkDir :: "(string \<Rightarrow> walk_call \<Rightarrow> 's \<Rightarrow> 's \<times> werror option) \<Rightarrow> string \<Rightarrow> fsnode \<Rightarrow> 's
                  \<Rightarrow> 's \<times> werror option"
and walkDirs :: "(string \<Rightarrow> walk_call \<Rightarrow> 's \<Rightarrow> 's \<times> werror option) \<Rightarrow> string \<Rightarrow> fsnode list \<Rightarrow> 's
                  \<Rightarrow> 's \<times> werror option"
where
  "walkDir fn path (FsNode d dirs rderr) s =
     (case fn path (WalkEntry d) s of
        (s1, Some e) \<Rightarrow> (s1, if e = SkipDir \<and> de_IsDir d then None else Some e)
      | (s1, None) \<Rightarrow>
          if \<not> de_IsDir d then (s1, None)
          else (case (if rderr then fn path (WalkFailure (Some d) ReadDirError) s1
                      else (s1, None)) of
                  (s2, Some e) \<Rightarrow> (s2, if e = SkipDir \<and> de_IsDir d then None else Some e)
                | (s2, None) \<Rightarrow> walkDirs fn path dirs s2))"
| "walkDirs fn path [] s = (s, None)"
| "walkDirs fn path (n # ns) s =
     (case walkDir fn (Join path (de_Name (node_entry n))) n s of
        (s1, None) \<Rightarrow> walkDirs fn path ns s1
      | (s1, Some e) \<Rightarrow> if e = SkipDir then (s1, None) else (s1, Some e))"

definition WalkDir :: "string \<Rightarrow> fsnode option \<Rightarrow> (string \<Rightarrow> walk_call \<Rightarrow> 's \<Rightarrow> 's \<times> werror option)
                         \<Rightarrow> 's \<Rightarrow> 's \<times> werror option" where
  "WalkDir rootPath lstat fn s =
     (case (case lstat of
              None \<Rightarrow> fn rootPath (WalkFailure None LstatError) s
            | Some n \<Rightarrow> walkDir fn rootPath n s) of
        (s1, err) \<Rightarrow> (s1, if err = Some SkipDir \<or> err = Some SkipAll then None else err))"

section \<open>The poller (package poller)\<close>

text \<open>
  What a \<open>Handler\<close> returns: \<open>ErrSkipDir\<close> itself, an error wrapping another one, or an
  unrelated error. \<^verbatim>\<open>errors.Is(err, ErrSkipDir)\<close> follows the wrapping.
\<close>

datatype herror = ErrSkipDir | Wrapped string herror | OtherError string

fun errors_Is_ErrSkipDir :: "herror \<Rightarrow> bool" where
  "errors_Is_ErrSkipDir ErrSkipDir = True"
| "errors_Is_ErrSkipDir (Wrapped msg e) = errors_Is_ErrSkipDir e"
| "errors_Is_ErrSkipDir (OtherError msg) = False"

text \<open>
  The handler is a closure over state of its caller (caches, the attribute store):
  it takes that state \<open>'h\<close> and returns it updated.
\<close>

type_synonym 'h Handler = "string \<Rightarrow> FileInfo \<Rightarrow> 'h \<Rightarrow> herror option \<times> 'h"

record 'h Poller =
  root :: string
  interval :: duration
  handler :: "'h Handler"
  lastScan :: time
  dirModTime :: "string \<rightharpoonup> time"
  skipDirs :: "string set"

record 'h Config =
  Root :: string
  ScanInterval :: duration
  Handler :: "'h Handler"
  SkipDirs :: "string list"

definition defaultScanInterval :: duration where
  "defaultScanInterval = 5 * 60 * 1000000000"

text \<open>\<open>absRoot\<close> is the result of \<^verbatim>\<open>filepath.Abs(cfg.Root)\<close>, \<open>None\<close> when it fails.\<close>

definition NewPoller :: "'h Config \<Rightarrow> string option \<Rightarrow> 'h Poller option" where
  "NewPoller cfg absRoot =
     (case absRoot of
        None \<Rightarrow> None
      | Some r \<Rightarrow> Some
          \<lparr>root = r,
           interval = (if ScanInterval cfg \<le> 0 then defaultScanInterval else ScanInterval cfg),
           handler = Handler cfg,
           lastScan = 0,
           dirModTime = Map.empty,
           skipDirs = {''.git'', ''.dropbox.cache'', ''node_modules'', ''.svn'', ''.hg''}
                        \<union> set (SkipDirs cfg)\<rparr>)"

definition shouldSkipDir :: "'h Poller \<Rightarrow> string \<Rightarrow> time \<Rightarrow> bool" where
  "shouldSkipDir p path modTime =
     (case dirModTime p path of None \<Rightarrow> False | Some prevModTime \<Rightarrow> modTime = prevModTime)"

definition updateDirModTime :: "'h Poller \<Rightarrow> string \<Rightarrow> time \<Rightarrow> 'h Poller" where
  "updateDirModTime p path modTime = p\<lparr>dirModTime := (dirModTime p)(path \<mapsto> modTime)\<rparr>"

definition cleanupDirModTime :: "'h Poller \<Rightarrow> string set \<Rightarrow> 'h Poller" where
  "cleanupDirModTime p visitedDirs = p\<lparr>dirModTime := dirModTime p |` visitedDirs\<rparr>"

definition SetSkipDir :: "'h Poller \<Rightarrow> string \<Rightarrow> bool \<Rightarrow> 'h Poller" where
  "SetSkipDir p name skip =
     (if skip then p\<lparr>skipDirs := insert name (skipDirs p)\<rparr>
      else p\<lparr>skipDirs := skipDirs p - {name}\<rparr>)"

definition ClearCache :: "'h Poller \<Rightarrow> 'h Poller" where
  "ClearCache p = p\<lparr>dirModTime := Map.empty\<rparr>"

text \<open>The lines the poller writes to its logger, by kind.\<close>

datatype pmsg =
    StartingScan string
  | WalkErrorAt string
  | DirInfoFailed string
  | SkippingIgnoredDir string
  | DirHandlerError string
  | FileInfoFailed string
  | FileHandlerError string
  | ScanCompleted nat nat nat
  | InitialScanError werror
  | ScanError werror

text \<open>
  The state of one \<open>Scan\<close>: the poller, the handler's state, the local counters and
  \<open>visitedDirs\<close>, the log, and two histories kept for the statements below: \<open>visited\<close>,
  the paths the callback was called with, and \<open>calls\<close>, the handler invocations.
\<close>

record 'h scan_state =
  plr :: "'h Poller"
  hstate :: 'h
  fileCount :: nat
  dirCount :: nat
  skippedDirs :: nat
  visitedDirs :: "string set"
  logged :: "pmsg list"
  visited :: "string list"
  calls :: "(string \<times> FileInfo) list"

text \<open>The invocation \<^verbatim>\<open>p.handler(path, info)\<close>, recorded in \<open>calls\<close>.\<close>

definition call_handler :: "string \<Rightarrow> FileInfo \<Rightarrow> 'h scan_state \<Rightarrow> herror option \<times> 'h scan_state" where
  "call_handler path info s =
     (case handler (plr s) path info (hstate s) of
        (err, h') \<Rightarrow> (err, s\<lparr>hstate := h', calls := calls s @ [(path, info)]\<rparr>))"

text \<open>
  The directory branch of the callback from the skip-set test on (what runs when the
  handler did not ask to skip the directory).
\<close>

definition scanFn_after_handler :: "time \<Rightarrow> string \<Rightarrow> DirEntry \<Rightarrow> FileInfo \<Rightarrow> 'h scan_state
                                      \<Rightarrow> 'h scan_state \<times> werror option" where
  "scanFn_after_handler lastScan0 path d info s =
     (let name = de_Name d in
      if name \<in> skipDirs (plr s) \<or> (HasPrefix name ''.'' \<and> name \<noteq> ''.'')
      then (s\<lparr>skippedDirs := skippedDirs s + 1\<rparr>, Some SkipDir)
      else if \<not> IsZero lastScan0 then
        (if shouldSkipDir (plr s) path (ModTime info) then (s, Some SkipDir)
         else (s\<lparr>plr := updateDirModTime (plr s) path (ModTime info)\<rparr>, None))
      else (s, None))"

text \<open>The function literal that \<open>Scan\<close> passes to \<^verbatim>\<open>filepath.WalkDir\<close>.\<close>

definition scanFn :: "time \<Rightarrow> string \<Rightarrow> walk_call \<Rightarrow> 'h scan_state \<Rightarrow> 'h scan_state \<times> werror option" where
  "scanFn lastScan0 path c s0 =
     (let s = s0\<lparr>visited := visited s0 @ [path]\<rparr> in
      case c of
        WalkFailure d err \<Rightarrow> (s\<lparr>logged := logged s @ [WalkErrorAt path]\<rparr>, None)
      | WalkEntry d \<Rightarrow>
          if de_IsDir d then
            (let s1 = s\<lparr>dirCount := dirCount s + 1, visitedDirs := insert path (visitedDirs s)\<rparr> in
             case de_Info d of
               None \<Rightarrow> (s1\<lparr>logged := logged s1 @ [DirInfoFailed path]\<rparr>, None)
             | Some info \<Rightarrow>
                 (case call_handler path info s1 of
                    (Some err, s2) \<Rightarrow>
                      if errors_Is_ErrSkipDir err
                      then (s2\<lparr>logged := logged s2 @ [SkippingIgnoredDir path],
                                skippedDirs := skippedDirs s2 + 1\<rparr>, Some SkipDir)
                      else scanFn_after_handler lastScan0 path d info
                             (s2\<lparr>logged := logged s2 @ [DirHandlerError path]\<rparr>)
                  | (None, s2) \<Rightarrow> scanFn_after_handler lastScan0 path d info s2))
          else
            (let s1 = s\<lparr>fileCount := fileCount s + 1\<rparr> in
             case de_Info d of
               None \<Rightarrow> (s1\<lparr>logged := logged s1 @ [FileInfoFailed path]\<rparr>, None)
             | Some info \<Rightarrow>
                 if \<not> IsZero lastScan0 \<and> ModTime info < lastScan0 then (s1, None)
                 else (case call_handler path info s1 of
                         (Some err, s2) \<Rightarrow> (s2\<lparr>logged := logged s2 @ [FileHandlerError path]\<rparr>, None)
                       | (None, s2) \<Rightarrow> (s2, None))))"

text \<open>
  \<open>Scan\<close>: \<open>scanStart\<close> is the reading of \<^verbatim>\<open>time.Now()\<close> at its start and \<open>lstat\<close> the
  filesystem under the root as this walk observes it (\<open>None\<close> when \<^verbatim>\<open>os.Lstat\<close> of the
  root fails). The result is the final state and the error that \<open>Scan\<close> returns.
\<close>

definition scan_init :: "'h Poller \<Rightarrow> time \<Rightarrow> 'h \<Rightarrow> 'h scan_state" where
  "scan_init p scanStart h =
     \<lparr>plr = p\<lparr>lastScan := scanStart\<rparr>, hstate = h, fileCount = 0, dirCount = 0,
      skippedDirs = 0, visitedDirs = {}, logged = [StartingScan (root p)],
      visited = [], calls = []\<rparr>"

definition Scan :: "'h Poller \<Rightarrow> time \<Rightarrow> fsnode option \<Rightarrow> 'h \<Rightarrow> 'h scan_state \<times> werror option" where
  "Scan p scanStart lstat h =
     (let lastScan0 = lastScan p;
          s0 = scan_init p scanStart h
      in case WalkDir (root p) lstat (scanFn lastScan0) s0 of
           (s1, err) \<Rightarrow>
             (s1\<lparr>plr := cleanupDirModTime (plr s1) (visitedDirs s1),
                 logged := logged s1 @ [ScanCompleted (fileCount s1) (dirCount s1) (skippedDirs s1)]\<rparr>,
              err))"

text \<open>The paths of the directories of a tree whose root is at \<open>path\<close>.\<close>

fun dir_paths :: "string \<Rightarrow> fsnode \<Rightarrow> string set"
and dir_paths_list :: "string \<Rightarrow> fsnode list \<Rightarrow> string set" where
  "dir_paths path (FsNode d dirs rderr) =
     (if de_IsDir d then insert path (dir_paths_list path dirs) else {})"
| "dir_paths_list path [] = {}"
| "dir_paths_list path (n # ns) =
     dir_paths (Join path (de_Name (node_entry n))) n \<union> dir_paths_list path ns"

text \<open>
  \<open>Run\<close>. The loop blocks in a \<^verbatim>\<open>select\<close>; the list of inputs is the sequence of cases
  that fire: the context is done (with what \<^verbatim>\<open>ctx.Err()\<close> then returns), or the ticker
  ticks (with the clock reading and the filesystem that the scan of that tick sees).
  The result is \<open>Running\<close> when the loop is still waiting after the last input.
\<close>

datatype ctxerr = Canceled | DeadlineExceeded

datatype 'e run_result = Running | Returned 'e

datatype poller_input = PollerCtxDone ctxerr | PollerTick time "fsnode option"

record 'h run_state =
  run_plr :: "'h Poller"
  run_hstate :: 'h
  run_logged :: "pmsg list"
  scans :: "('h scan_state \<times> werror option) list"

definition run_Scan :: "(werror \<Rightarrow> pmsg) \<Rightarrow> time \<Rightarrow> fsnode option \<Rightarrow> 'h run_state \<Rightarrow> 'h run_state" where
  "run_Scan msg now lstat r =
     (case Scan (run_plr r) now lstat (run_hstate r) of
        (s, err) \<Rightarrow>
          r\<lparr>run_plr := plr s, run_hstate := hstate s,
            run_logged := run_logged r @ logged s @ (case err of None \<Rightarrow> [] | Some e \<Rightarrow> [msg e]),
            scans := scans r @ [(s, err)]\<rparr>)"

fun Poller_loop :: "poller_input list \<Rightarrow> 'h run_state \<Rightarrow> 'h run_state \<times> ctxerr option run_result" where
  "Poller_loop [] r = (r, Running)"
| "Poller_loop (PollerCtxDone e # ins) r = (r, Returned (Some e))"
| "Poller_loop (PollerTick now lstat # ins) r = Poller_loop ins (run_Scan ScanError now lstat r)"

definition Poller_Run :: "'h Poller \<Rightarrow> 'h \<Rightarrow> time \<Rightarrow> fsnode option \<Rightarrow> poller_input list
                            \<Rightarrow> 'h run_state \<times> ctxerr option run_result" where
  "Poller_Run p h now0 lstat0 ins =
     Poller_loop ins
       (run_Scan InitialScanError now0 lstat0
          \<lparr>run_plr = p, run_hstate = h, run_logged = [], scans = []\<rparr>)"

section \<open>The watcher (package watcher)\<close>

text \<open>
  \<^verbatim>\<open>filepath.Walk\<close> and its helper \<^verbatim>\<open>walk\<close>, from the standard library as well. It reads
  the names of a directory before it calls the callback on the directory, hands a read
  error to that call and then does not descend; it calls \<^verbatim>\<open>lstat\<close> on every name and
  reports a failure to the callback with no metadata.
\<close>

fun walk :: "(string \<Rightarrow> FileInfo option \<Rightarrow> oserror option \<Rightarrow> 's \<Rightarrow> 's \<times> werror option)
               \<Rightarrow> string \<Rightarrow> FileInfo \<Rightarrow> fsnode \<Rightarrow> 's \<Rightarrow> 's \<times> werror option"
and walkNames :: "(string \<Rightarrow> FileInfo option \<Rightarrow> oserror option \<Rightarrow> 's \<Rightarrow> 's \<times> werror option)
               \<Rightarrow> string \<Rightarrow> fsnode list \<Rightarrow> 's \<Rightarrow> 's \<times> werror option"
where
  "walk fn path info (FsNode d names rderr) s =
     (if \<not> IsDir info then fn path (Some info) None s
      else (case fn path (Some info) (if rderr then Some ReadDirError else None) s of
              (s1, err1) \<Rightarrow>
                if rderr \<or> err1 \<noteq> None then (s1, err1)
                else walkNames fn path names s1))"
| "walkNames fn path [] s = (s, None)"
| "walkNames fn path (n # ns) s =
     (case de_Info (node_entry n) of
        None \<Rightarrow>
          (case fn (Join path (de_Name (node_entry n))) None (Some LstatError) s of
             (s1, Some e) \<Rightarrow> if e \<noteq> SkipDir then (s1, Some e) else walkNames fn path ns s1
           | (s1, None) \<Rightarrow> walkNames fn path ns s1)
      | Some fileInfo \<Rightarrow>
          (case walk fn (Join path (de_Name (node_entry n))) fileInfo n s of
             (s1, Some e) \<Rightarrow>
               if \<not> IsDir fileInfo \<or> e \<noteq> SkipDir then (s1, Some e)
               else walkNames fn path ns s1
           | (s1, None) \<Rightarrow> walkNames fn path ns s1))"

definition Walk :: "string \<Rightarrow> fsnode option
                      \<Rightarrow> (string \<Rightarrow> FileInfo option \<Rightarrow> oserror option \<Rightarrow> 's \<Rightarrow> 's \<times> werror option)
                      \<Rightarrow> 's \<Rightarrow> 's \<times> werror option" where
  "Walk rootPath lstat fn s =
     (case (case lstat of
              None \<Rightarrow> fn rootPath None (Some LstatError) s
            | Some n \<Rightarrow>
                (case de_Info (node_entry n) of
                   None \<Rightarrow> fn rootPath None (Some LstatError) s
                 | Some info \<Rightarrow> walk fn rootPath info n s)) of
        (s1, err) \<Rightarrow> (s1, if err = Some SkipDir \<or> err = Some SkipAll then None else err))"

text \<open>
  \<^verbatim>\<open>fsnotify.Op\<close> is a set of bits in a uint32; the values are those of the fsnotify
  library (which is not part of this repository).
\<close>

type_synonym Op = "32 word"

definition Create :: Op where "Create = 1"
definition Write :: Op where "Write = 2"
definition Remove :: Op where "Remove = 4"
definition Rename :: Op where "Rename = 8"
definition Chmod :: Op where "Chmod = 16"

text \<open>\<^verbatim>\<open>fsnotify.Event\<close>, the raw notification.\<close>

record fsnotify_Event =
  fsn_Name :: string
  fsn_Op :: Op

text \<open>\<open>Event\<close>, the notification with the time it was received.\<close>

record Event =
  Path :: string
  Op :: Op
  Time :: time

type_synonym 'h WHandler = "Event \<Rightarrow> 'h \<Rightarrow> herror option \<times> 'h"

datatype wmsg =
    CannotAccess string
  | FailedToWatch string
  | WatchError string
  | HandlerErrorFor string

text \<open>
  The watcher. \<open>pending\<close> is the map from path to event, kept as an association list
  that is only changed through \<open>AList.update\<close> and filtering; the order in which
  \<open>flushPending\<close> ranges over it is the order of this list (Go leaves it unspecified).
  \<open>watched\<close> is the watch list of the underlying fsnotify watcher and \<open>w_hstate\<close> the
  state the handler closes over. Three histories are kept for the statements below:
  \<open>w_logged\<close>, the log; \<open>dispatched\<close>, the handler invocations with the clock reading of
  the flush that made them; \<open>walked\<close>, the paths \<open>AddRecursive\<close> called its callback with;
  and \<open>probes\<close>, the paths for which \<open>handleEvent\<close> started its goroutine (which runs
  beside the loop and touches the watch list only).
\<close>

record 'h Watcher =
  w_handler :: "'h WHandler"
  debounce :: duration
  flush :: duration
  pending :: "(string \<times> Event) list"
  watched :: "string set"
  w_hstate :: 'h
  w_logged :: "wmsg list"
  dispatched :: "(time \<times> Event) list"
  walked :: "string list"
  probes :: "string list"

record 'h WConfig =
  WHandler :: "'h WHandler"
  Debounce :: duration
  FlushInterval :: duration

definition defaultDebounce :: duration where
  "defaultDebounce = 800 * 1000000"

definition defaultFlushInterval :: duration where
  "defaultFlushInterval = 250 * 1000000"

text \<open>\<open>fsok\<close> tells whether \<^verbatim>\<open>fsnotify.NewWatcher()\<close> succeeds.\<close>

definition NewWatcher :: "'h WConfig \<Rightarrow> bool \<Rightarrow> 'h \<Rightarrow> 'h Watcher option" where
  "NewWatcher cfg fsok h =
     (if \<not> fsok then None
      else Some
        \<lparr>w_handler = WHandler cfg,
         debounce = (if Debounce cfg \<le> 0 then defaultDebounce else Debounce cfg),
         flush = (if FlushInterval cfg \<le> 0 then defaultFlushInterval else FlushInterval cfg),
         pending = [], watched = {}, w_hstate = h, w_logged = [], dispatched = [],
         walked = [], probes = []\<rparr>)"

text \<open>
  \<open>Add\<close> hands the path to fsnotify; \<open>addable\<close> tells for which paths fsnotify accepts
  the watch. The result is the watcher and whether an error is returned.
\<close>

definition Watcher_Add :: "(string \<Rightarrow> bool) \<Rightarrow> string \<Rightarrow> 'h Watcher \<Rightarrow> 'h Watcher \<times> bool" where
  "Watcher_Add addable path w =
     (if addable path then (w\<lparr>watched := insert path (watched w)\<rparr>, False) else (w, True))"

text \<open>
  The function literal that \<open>AddRecursive\<close> passes to \<^verbatim>\<open>filepath.Walk\<close>. When the error
  is nil the metadata is present; the case with neither does not arise.
\<close>

definition addFn :: "(string \<Rightarrow> bool) \<Rightarrow> string \<Rightarrow> FileInfo option \<Rightarrow> oserror option \<Rightarrow> 'h Watcher
                       \<Rightarrow> 'h Watcher \<times> werror option" where
  "addFn addable path info err w0 =
     (let w = w0\<lparr>walked := walked w0 @ [path]\<rparr> in
      case err of
        Some e \<Rightarrow> (w\<lparr>w_logged := w_logged w @ [CannotAccess path]\<rparr>, None)
      | None \<Rightarrow>
          (case info of
             None \<Rightarrow> (w, None)
           | Some i \<Rightarrow>
               if \<not> IsDir i then (w, None)
               else
                 (let name = Name i in
                  if name = ''node_modules'' \<or> name = ''.git'' \<or> name = ''.dropbox.cache''
                     \<or> name = ''.svn'' \<or> name = ''.hg''
                     \<or> (HasPrefix name ''.'' \<and> name \<noteq> ''.'')
                  then (w, Some SkipDir)
                  else (case Watcher_Add addable path w of
                          (w1, True) \<Rightarrow> (w1\<lparr>w_logged := w_logged w1 @ [FailedToWatch path]\<rparr>, None)
                        | (w1, False) \<Rightarrow> (w1, None)))))"

definition AddRecursive :: "(string \<Rightarrow> bool) \<Rightarrow> string \<Rightarrow> fsnode option \<Rightarrow> 'h Watcher
                              \<Rightarrow> 'h Watcher \<times> werror option" where
  "AddRecursive addable rootPath lstat w = Walk rootPath lstat (addFn addable) w"

text \<open>\<open>handleEvent\<close>; \<open>now\<close> is the reading of \<^verbatim>\<open>time.Now()\<close> inside it.\<close>

definition handleEvent :: "fsnotify_Event \<Rightarrow> time \<Rightarrow> 'h Watcher \<Rightarrow> 'h Watcher" where
  "handleEvent event now w =
     (if fsn_Op event AND (Create OR Write OR Rename) = 0 then w
      else
        (let w1 = w\<lparr>pending := AList.update (fsn_Name event)
                       \<lparr>Path = fsn_Name event, Op = fsn_Op event, Time = now\<rparr> (pending w)\<rparr>
         in if fsn_Op event AND Create \<noteq> 0
            then w1\<lparr>probes := probes w1 @ [fsn_Name event]\<rparr>
            else w1))"

text \<open>One handler invocation of \<open>flushPending\<close>, with its log line on error.\<close>

definition process_event :: "time \<Rightarrow> Event \<Rightarrow> 'h Watcher \<Rightarrow> 'h Watcher" where
  "process_event now event w =
     (case w_handler w event (w_hstate w) of
        (err, h') \<Rightarrow>
          w\<lparr>w_hstate := h',
            dispatched := dispatched w @ [(now, event)],
            w_logged := w_logged w @ (case err of None \<Rightarrow> [] | Some e \<Rightarrow> [HandlerErrorFor (Path event)])\<rparr>)"

definition settled :: "duration \<Rightarrow> time \<Rightarrow> string \<times> Event \<Rightarrow> bool" where
  "settled d now pe = (time_Sub now (Time (snd pe)) \<ge> d)"

text \<open>\<open>flushPending\<close>; \<open>now\<close> is the reading of \<^verbatim>\<open>time.Now()\<close> under the lock.\<close>

definition flushPending :: "time \<Rightarrow> 'h Watcher \<Rightarrow> 'h Watcher" where
  "flushPending now w =
     (let toProcess = map snd (filter (settled (debounce w) now) (pending w));
          w1 = w\<lparr>pending := filter (\<lambda>pe. \<not> settled (debounce w) now pe) (pending w)\<rparr>
      in fold (process_event now) toProcess w1)"

text \<open>
  \<open>Run\<close>, driven like the poller's loop by the sequence of \<^verbatim>\<open>select\<close> cases that fire:
  the context is done, a notification arrives or the notification channel is closed,
  an error arrives or the error channel is closed, the flush ticker ticks.
\<close>

datatype watcher_input =
    WCtxDone ctxerr
  | WEvent fsnotify_Event time
  | WEventsClosed
  | WError string
  | WErrorsClosed
  | WFlushTick time

fun Watcher_Run :: "watcher_input list \<Rightarrow> 'h Watcher \<Rightarrow> 'h Watcher \<times> ctxerr option run_result" where
  "Watcher_Run [] w = (w, Running)"
| "Watcher_Run (WCtxDone e # ins) w = (w, Returned (Some e))"
| "Watcher_Run (WEvent event now # ins) w = Watcher_Run ins (handleEvent event now w)"
| "Watcher_Run (WEventsClosed # ins) w = (w, Returned None)"
| "Watcher_Run (WError msg # ins) w = Watcher_Run ins (w\<lparr>w_logged := w_logged w @ [WatchError msg]\<rparr>)"
| "Watcher_Run (WErrorsClosed # ins) w = (w, Returned None)"
| "Watcher_Run (WFlushTick now # ins) w = Watcher_Run ins (flushPending now w)"

section \<open>Example values\<close>

text \<open>
  A small tree, \<^verbatim>\<open>/r\<close> holding the directory \<^verbatim>\<open>a\<close> holding the file \<^verbatim>\<open>x.log\<close>, and
  pollers and watchers made by the constructors, with a handler that accepts
  everything. They serve as concrete inputs below.
\<close>

definition ex_info :: "string \<Rightarrow> time \<Rightarrow> bool \<Rightarrow> FileInfo" where
  "ex_info name mtime isdir = \<lparr>Name = name, ModTime = mtime, IsDir = isdir, Sys = None\<rparr>"

definition ex_dir :: "string \<Rightarrow> time \<Rightarrow> fsnode list \<Rightarrow> fsnode" where
  "ex_dir name mtime dirs = FsNode (DirEntry name True (Some (ex_info name mtime True))) dirs False"

definition ex_file :: "string \<Rightarrow> time \<Rightarrow> fsnode" where
  "ex_file name mtime = FsNode (DirEntry name False (Some (ex_info name mtime False))) [] False"

definition ex_tree :: fsnode where
  "ex_tree = ex_dir ''r'' 5 [ex_dir ''a'' 5 [ex_file ''x.log'' 5]]"

definition ex_handler :: "unit Handler" where
  "ex_handler path info h = (None, h)"

definition ex_poller :: "string \<Rightarrow> unit Poller" where
  "ex_poller r =
     the (NewPoller \<lparr>Root = r, ScanInterval = 0, Handler = ex_handler, SkipDirs = []\<rparr> (Some r))"

definition ex_whandler :: "unit WHandler" where
  "ex_whandler event h = (None, h)"

definition ex_watcher :: "duration \<Rightarrow> duration \<Rightarrow> unit Watcher" where
  "ex_watcher d f =
     the (NewWatcher \<lparr>WHandler = ex_whandler, Debounce = d, FlushInterval = f\<rparr> True ())"

definition ex_skip_handler :: "unit Handler" where
  "ex_skip_handler path info h = (if path = ''/r/a'' then Some ErrSkipDir else None, h)"

section \<open>Vocabulary for statements about the two loops\<close>

text \<open>
  Which inputs leave a loop running: for the poller a tick, for the watcher a
  notification, an error of the notification source or a flush tick.
\<close>

fun poller_tick :: "poller_input \<Rightarrow> bool" where
  "poller_tick (PollerTick now lstat) = True"
| "poller_tick (PollerCtxDone e) = False"

fun watcher_going :: "watcher_input \<Rightarrow> bool" where
  "watcher_going (WEvent event now) = True"
| "watcher_going (WError msg) = True"
| "watcher_going (WFlushTick now) = True"
| "watcher_going (WCtxDone e) = False"
| "watcher_going WEventsClosed = False"
| "watcher_going WErrorsClosed = False"

text \<open>
  The clock readings of a sequence of watcher inputs: those of the notifications of
  kind Create, Write or Rename for one path, those of the flush ticks, and all of them
  in order.
\<close>

fun notif_times :: "string \<Rightarrow> watcher_input list \<Rightarrow> time list" where
  "notif_times p [] = []"
| "notif_times p (WEvent event now # ins) =
     (if fsn_Name event = p \<and> fsn_Op event AND (Create OR Write OR Rename) \<noteq> 0
      then now # notif_times p ins else notif_times p ins)"
| "notif_times p (WCtxDone e # ins) = notif_times p ins"
| "notif_times p (WEventsClosed # ins) = notif_times p ins"
| "notif_times p (WError msg # ins) = notif_times p ins"
| "notif_times p (WErrorsClosed # ins) = notif_times p ins"
| "notif_times p (WFlushTick now # ins) = notif_times p ins"

fun tick_times :: "watcher_input list \<Rightarrow> time list" where
  "tick_times [] = []"
| "tick_times (WFlushTick now # ins) = now # tick_times ins"
| "tick_times (WEvent event now # ins) = tick_times ins"
| "tick_times (WCtxDone e # ins) = tick_times ins"
| "tick_times (WEventsClosed # ins) = tick_times ins"
| "tick_times (WError msg # ins) = tick_times ins"
| "tick_times (WErrorsClosed # ins) = tick_times ins"

fun clock_readings :: "watcher_input list \<Rightarrow> time list" where
  "clock_readings [] = []"
| "clock_readings (WFlushTick now # ins) = now # clock_readings ins"
| "clock_readings (WEvent event now # ins) = now # clock_readings ins"
| "clock_readings (WCtxDone e # ins) = clock_readings ins"
| "clock_readings (WEventsClosed # ins) = clock_readings ins"
| "clock_readings (WError msg # ins) = clock_readings ins"
| "clock_readings (WErrorsClosed # ins) = clock_readings ins"

text \<open>
  Every flush tick comes at most \<open>f\<close> after the tick before it (after \<open>prev\<close>, the time
  the ticker was started, for the first one).
\<close>

fun tick_gaps_ok :: "duration \<Rightarrow> time \<Rightarrow> watcher_input list \<Rightarrow> bool" where
  "tick_gaps_ok f prev [] = True"
| "tick_gaps_ok f prev (WFlushTick now # ins) = (now - prev \<le> f \<and> tick_gaps_ok f now ins)"
| "tick_gaps_ok f prev (WEvent event now # ins) = tick_gaps_ok f prev ins"
| "tick_gaps_ok f prev (WCtxDone e # ins) = tick_gaps_ok f prev ins"
| "tick_gaps_ok f prev (WEventsClosed # ins) = tick_gaps_ok f prev ins"
| "tick_gaps_ok f prev (WError msg # ins) = tick_gaps_ok f prev ins"
| "tick_gaps_ok f prev (WErrorsClosed # ins) = tick_gaps_ok f prev ins"

text \<open>The events dispatched for one path, with the clock readings of their flushes.\<close>

definition dispatched_for :: "string \<Rightarrow> 'h Watcher \<Rightarrow> (time \<times> Event) list" where
  "dispatched_for p w = filter (\<lambda>te. Path (snd te) = p) (dispatched w)"

text \<open>Every pending entry is filed under the path it carries.\<close>

definition keyed :: "(string \<times> Event) list \<Rightarrow> bool" where
  "keyed al = (\<forall>ke\<in>set al. Path (snd ke) = fst ke)"

definition wf_pending :: "'h Watcher \<Rightarrow> bool" where
  "wf_pending w = (distinct (map fst (pending w)) \<and> keyed (pending w))"

section \<open>Vocabulary for statements about consecutive scans\<close>

text \<open>
  \<open>all_entries Q path n\<close>: every entry of the tree \<open>n\<close> rooted at \<open>path\<close> satisfies \<open>Q\<close>,
  which is given the path of the entry.
\<close>

fun all_entries :: "(string \<Rightarrow> DirEntry \<Rightarrow> bool) \<Rightarrow> string \<Rightarrow> fsnode \<Rightarrow> bool"
and all_entries_list :: "(string \<Rightarrow> DirEntry \<Rightarrow> bool) \<Rightarrow> string \<Rightarrow> fsnode list \<Rightarrow> bool" where
  "all_entries Q path (FsNode d dirs rderr) = (Q path d \<and> all_entries_list Q path dirs)"
| "all_entries_list Q path [] = True"
| "all_entries_list Q path (n # ns) =
     (all_entries Q (Join path (de_Name (node_entry n))) n \<and> all_entries_list Q path ns)"

text \<open>
  Whatever directory sits at the path \<open>q\<close> has readable metadata with the modification
  time \<open>m\<close>; and its name is one that the skip rule of the scan spares.
\<close>

definition has_mtime :: "string \<Rightarrow> time \<Rightarrow> string \<Rightarrow> DirEntry \<Rightarrow> bool" where
  "has_mtime q m path d =
     (path = q \<and> de_IsDir d \<longrightarrow>
        (case de_Info d of None \<Rightarrow> False | Some info \<Rightarrow> ModTime info = m))"

definition spared :: "string set \<Rightarrow> string \<Rightarrow> string \<Rightarrow> DirEntry \<Rightarrow> bool" where
  "spared skip q path d =
     (path = q \<and> de_IsDir d \<longrightarrow>
        de_Name d \<notin> skip \<and> \<not> (HasPrefix (de_Name d) ''.'' \<and> de_Name d \<noteq> ''.''))"

text \<open>
  The paths of the entries of a tree that do not lie below a directory at the path
  \<open>q\<close>: the directory itself is among them, what it holds is not.
\<close>

fun reach_paths :: "string \<Rightarrow> string \<Rightarrow> fsnode \<Rightarrow> string set"
and reach_paths_list :: "string \<Rightarrow> string \<Rightarrow> fsnode list \<Rightarrow> string set" where
  "reach_paths q path (FsNode d dirs rderr) =
     insert path (if path = q \<and> de_IsDir d then {} else reach_paths_list q path dirs)"
| "reach_paths_list q path [] = {}"
| "reach_paths_list q path (n # ns) =
     reach_paths q (Join path (de_Name (node_entry n))) n \<union> reach_paths_list q path ns"

text \<open>
  Two properties that a scan keeps while it walks: once a directory at \<open>q\<close> was
  visited, the table holds \<open>m\<close> for \<open>q\<close> (with the handler and the skip set of the poller
  unchanged); and once it was visited, the handler was invoked for it.
\<close>

definition recorded_inv :: "'h Handler \<Rightarrow> string set \<Rightarrow> string \<Rightarrow> time \<Rightarrow> 'h scan_state \<Rightarrow> bool" where
  "recorded_inv H K q m s =
     (handler (plr s) = H \<and> skipDirs (plr s) = K
      \<and> (q \<in> visitedDirs s \<longrightarrow> dirModTime (plr s) q = Some m))"

definition called_inv :: "string \<Rightarrow> time \<Rightarrow> 'h scan_state \<Rightarrow> bool" where
  "called_inv q m s =
     (q \<in> visitedDirs s \<longrightarrow> (\<exists>info. ModTime info = m \<and> (q, info) \<in> set (calls s)))"

text \<open>
  The state of a handler after it was invoked on a list of events in turn; a poller
  that has made its first scan of the example tree; and a watcher whose handler
  records the events it is given.
\<close>

definition handled :: "'h WHandler \<Rightarrow> Event list \<Rightarrow> 'h \<Rightarrow> 'h" where
  "handled H evs h = fold (\<lambda>e h. snd (H e h)) evs h"

definition ex_scanned :: "unit Poller" where
  "ex_scanned = plr (fst (Scan (ex_poller ''/r'') 10 (Some ex_tree) ()))"

definition ex_recorder :: "Event list WHandler" where
  "ex_recorder event h = (None, h @ [event])"

definition ex_recording_watcher :: "duration \<Rightarrow> duration \<Rightarrow> Event list Watcher" where
  "ex_recording_watcher d f =
     the (NewWatcher \<lparr>WHandler = ex_recorder, Debounce = d, FlushInterval = f\<rparr> True [])"

section \<open>Properties of the cache\<close>

text \<open>
  C10. Right after \<open>Cache_Add c path info\<close> at time \<open>t0\<close>, \<open>Cache_Has\<close> for the same path
  at time \<open>t1\<close> answers true exactly when the age of the entry, \<open>time_Since t1 t0\<close>, is
  at most the TTL and the queried metadata has the same inode and the same modification
  time. And on any cache whose entry for the path is older than the TTL, \<open>Cache_Has\<close>
  answers false and returns the cache without that entry.
\<close>

theorem Cache_Has_after_Add:
  "(fst (Cache_Has (Cache_Add c path info t0) path info2 t1) =
      (time_Since t1 t0 \<le> ttl c \<and> getInode info2 = getInode info
        \<and> ModTime info2 = ModTime info))
   \<and> (entries c path = Some e \<and> ttl c < time_Since t1 (Added e) \<longrightarrow>
        Cache_Has c path info2 t1 = (False, c\<lparr>entries := (entries c)(path := None)\<rparr>)
        \<and> entries (snd (Cache_Has c path info2 t1)) path = None)"
proof (intro conjI impI)
  have stored: "entries (Cache_Add c path info t0) path
      = Some \<lparr>Inode = getInode info, Mtime = ModTime info, Added = t0\<rparr>"
    and same_ttl: "ttl (Cache_Add c path info t0) = ttl c"
    by (simp_all add: Cache_Add_def)
  show "fst (Cache_Has (Cache_Add c path info t0) path info2 t1) =
      (time_Since t1 t0 \<le> ttl c \<and> getInode info2 = getInode info
        \<and> ModTime info2 = ModTime info)"
    unfolding Cache_Has_def stored same_ttl by auto
next
  assume old: "entries c path = Some e \<and> ttl c < time_Since t1 (Added e)"
  then show gone: "Cache_Has c path info2 t1
      = (False, c\<lparr>entries := (entries c)(path := None)\<rparr>)"
    by (simp add: Cache_Has_def)
  show "entries (snd (Cache_Has c path info2 t1)) path = None"
    unfolding gone by simp
qed

theorem Cache_Has_after_Add_witness:
  "entries (Cache_Add (NewCache 60) ''/r/a'' \<lparr>Name = ''a'', ModTime = 5, IsDir = False, Sys = Some 7\<rparr> 10)
     ''/r/a'' = Some \<lparr>Inode = 7, Mtime = 5, Added = 10\<rparr>
   \<and> ttl (Cache_Add (NewCache 60) ''/r/a'' \<lparr>Name = ''a'', ModTime = 5, IsDir = False, Sys = Some 7\<rparr> 10)
       < time_Since 100 (Added \<lparr>Inode = 7, Mtime = 5, Added = 10\<rparr>)
   \<and> fst (Cache_Has (Cache_Add (NewCache 60) ''/r/a'' \<lparr>Name = ''a'', ModTime = 5, IsDir = False, Sys = Some 7\<rparr> 10)
        ''/r/a'' \<lparr>Name = ''a'', ModTime = 5, IsDir = False, Sys = Some 7\<rparr> 100) = False
   \<and> entries (snd (Cache_Has (Cache_Add (NewCache 60) ''/r/a'' \<lparr>Name = ''a'', ModTime = 5, IsDir = False, Sys = Some 7\<rparr> 10)
        ''/r/a'' \<lparr>Name = ''a'', ModTime = 5, IsDir = False, Sys = Some 7\<rparr> 100)) ''/r/a'' = None"
  using Cache_Has_after_Add
    [of "Cache_Add (NewCache 60) ''/r/a'' \<lparr>Name = ''a'', ModTime = 5, IsDir = False, Sys = Some 7\<rparr> 10"
        "''/r/a''" "\<lparr>Name = ''a'', ModTime = 5, IsDir = False, Sys = Some 7\<rparr>" 10
        "\<lparr>Name = ''a'', ModTime = 5, IsDir = False, Sys = Some 7\<rparr>" 100
        "\<lparr>Inode = 7, Mtime = 5, Added = 10\<rparr>"]
  by (simp add: Cache_Add_def NewCache_def getInode_def time_Since_def time_Sub_def
      maxDuration_def minDuration_def)

section \<open>Properties of the walk and of one scan\<close>

lemma walkDir_walkDirs_rel:
  assumes refl: "\<And>s. R s s"
    and trans: "\<And>s1 s2 s3. R s1 s2 \<Longrightarrow> R s2 s3 \<Longrightarrow> R s1 s3"
  shows "(\<forall>path c s. R s (fst (fn path c s))) \<Longrightarrow> R s (fst (walkDir fn path n s))"
    and "(\<forall>path c s. R s (fst (fn path c s))) \<Longrightarrow> R s (fst (walkDirs fn path ns s))"
proof (induction fn path n s and fn path ns s rule: walkDir_walkDirs.induct)
  case (1 fn path d dirs rderr s)
  obtain s1 r1 where c1: "fn path (WalkEntry d) s = (s1, r1)" by (cases "fn path (WalkEntry d) s")
  note step = "1.prems"[rule_format]
  have r1: "R s s1" using step[of s path "WalkEntry d"] c1 by simp
  show ?case
  proof (cases r1)
    case (Some e)
    then show ?thesis using c1 r1 by simp
  next
    case None
    note n1 = None
    show ?thesis
    proof (cases "de_IsDir d")
      case False
      then show ?thesis using c1 n1 r1 by simp
    next
      case True
      obtain s2 r2 where c2: "(if rderr then fn path (WalkFailure (Some d) ReadDirError) s1 else (s1, None)) = (s2, r2)"
        by (cases "(if rderr then fn path (WalkFailure (Some d) ReadDirError) s1 else (s1, None))")
      have r2: "R s1 s2" using step[of s1 path "WalkFailure (Some d) ReadDirError"] c2 refl[of s1]
        by (cases rderr) auto
      show ?thesis
      proof (cases r2)
        case (Some e)
        then show ?thesis using c1 n1 True c2 trans[OF r1 r2] by simp
      next
        case None
        have "R s2 (fst (walkDirs fn path dirs s2))"
          using "1.IH"[OF c1[symmetric] n1 _ c2[symmetric] None "1.prems"] True by simp
        then have "R s (fst (walkDirs fn path dirs s2))" using trans[OF r1 r2] trans by blast
        then show ?thesis using c1 n1 True c2 None by simp
      qed
    qed
  qed
next
  case (2 fn path s)
  then show ?case by (simp add: refl)
next
  case (3 fn path n ns s)
  obtain s1 r1 where c1: "walkDir fn (Join path (de_Name (node_entry n))) n s = (s1, r1)"
    by (cases "walkDir fn (Join path (de_Name (node_entry n))) n s")
  have r1: "R s s1" using "3.IH"(1)[OF "3.prems"] c1 by simp
  show ?case
  proof (cases r1)
    case None
    have "R s1 (fst (walkDirs fn path ns s1))" using "3.IH"(2)[OF c1[symmetric] None "3.prems"] by simp
    then have "R s (fst (walkDirs fn path ns s1))" using r1 trans by blast
    then show ?thesis using c1 None by simp
  next
    case (Some e)
    then show ?thesis using c1 r1 by simp
  qed
qed

lemma scanFn_after_handler_ret:
  "snd (scanFn_after_handler ls path d info s) = None \<or> snd (scanFn_after_handler ls path d info s) = Some SkipDir"
  by (simp add: scanFn_after_handler_def Let_def)

lemma scanFn_ret:
  "snd (scanFn ls path c s) = None \<or> snd (scanFn ls path c s) = Some SkipDir"
  by (simp add: scanFn_def scanFn_after_handler_def Let_def
           split: prod.splits option.splits walk_call.splits)

lemma walkDir_walkDirs_ret:
  shows "(\<forall>path c s. snd (fn path c s) = None \<or> snd (fn path c s) = Some SkipDir)
           \<Longrightarrow> snd (walkDir fn path n s) = None \<or> snd (walkDir fn path n s) = Some SkipDir"
    and "(\<forall>path c s. snd (fn path c s) = None \<or> snd (fn path c s) = Some SkipDir)
           \<Longrightarrow> snd (walkDirs fn path ns s) = None"
proof (induction fn path n s and fn path ns s rule: walkDir_walkDirs.induct)
  case (1 fn path d dirs rderr s)
  obtain s1 r1 where c1: "fn path (WalkEntry d) s = (s1, r1)" by (cases "fn path (WalkEntry d) s")
  have r1: "r1 = None \<or> r1 = Some SkipDir" using "1.prems"[rule_format, of path "WalkEntry d" s] c1 by simp
  show ?case
  proof (cases r1)
    case (Some e)
    then show ?thesis using c1 r1 by simp
  next
    case None
    note n1 = None
    show ?thesis
    proof (cases "de_IsDir d")
      case False
      then show ?thesis using c1 n1 by simp
    next
      case True
      obtain s2 r2 where c2: "(if rderr then fn path (WalkFailure (Some d) ReadDirError) s1 else (s1, None)) = (s2, r2)"
        by (cases "(if rderr then fn path (WalkFailure (Some d) ReadDirError) s1 else (s1, None))")
      have r2: "r2 = None \<or> r2 = Some SkipDir"
        using "1.prems"[rule_format, of path "WalkFailure (Some d) ReadDirError" s1] c2
        by (cases rderr) auto
      show ?thesis
      proof (cases r2)
        case (Some e)
        then show ?thesis using c1 n1 True c2 r2 by simp
      next
        case None
        have "snd (walkDirs fn path dirs s2) = None"
          using "1.IH"[OF c1[symmetric] n1 _ c2[symmetric] None "1.prems"] True by simp
        then show ?thesis using c1 n1 True c2 None by simp
      qed
    qed
  qed
next
  case (2 fn path s)
  then show ?case by simp
next
  case (3 fn path n ns s)
  obtain s1 r1 where c1: "walkDir fn (Join path (de_Name (node_entry n))) n s = (s1, r1)"
    by (cases "walkDir fn (Join path (de_Name (node_entry n))) n s")
  have r1: "r1 = None \<or> r1 = Some SkipDir" using "3.IH"(1)[OF "3.prems"] c1 by simp
  show ?case
  proof (cases r1)
    case None
    have "snd (walkDirs fn path ns s1) = None" using "3.IH"(2)[OF c1[symmetric] None "3.prems"] by simp
    then show ?thesis using c1 None by simp
  next
    case (Some e)
    then show ?thesis using c1 r1 by simp
  qed
qed

text \<open>
  C9. \<open>Scan\<close> returns nil whatever the filesystem, the handler and the poller are: the
  callback returns nil or \<open>SkipDir\<close> only, whatever errors the walk reports to it and
  the handler returns, and \<^verbatim>\<open>filepath.WalkDir\<close> turns both into nil.
\<close>

theorem Scan_returns_nil:
  "snd (Scan p scanStart lstat h) = None
   \<and> (snd (scanFn ls path c s) = None \<or> snd (scanFn ls path c s) = Some SkipDir)"
proof -
  let ?fn = "scanFn (lastScan p) :: string \<Rightarrow> walk_call \<Rightarrow> 'a scan_state \<Rightarrow> 'a scan_state \<times> werror option"
  have fn: "\<forall>path c s. snd (?fn path c s) = None \<or> snd (?fn path c s) = Some SkipDir"
    using scanFn_ret by blast
  have "snd (WalkDir (root p) lstat ?fn s0) = None" for s0
  proof (cases lstat)
    case None
    then show ?thesis using fn[rule_format, of "root p" "WalkFailure None LstatError" s0]
      by (auto simp: WalkDir_def split: prod.splits)
  next
    case (Some n)
    then show ?thesis using walkDir_walkDirs_ret(1)[OF fn, of "root p" n s0]
      by (auto simp: WalkDir_def split: prod.splits)
  qed
  then have "snd (Scan p scanStart lstat h) = None"
    by (simp add: Scan_def Let_def split_beta)
  then show ?thesis using scanFn_ret[of ls path c s] by blast
qed

lemmas scanFn_unfold = scanFn_def scanFn_after_handler_def call_handler_def Let_def
  shouldSkipDir_def updateDirModTime_def

lemma scanFn_lastScan:
  "lastScan (plr (fst (scanFn ls path c s))) = lastScan (plr s)"
  by (simp add: scanFn_unfold split: prod.splits option.splits walk_call.splits)

lemma scanFn_calls_grow:
  "\<exists>rest. calls (fst (scanFn ls path c s)) = calls s @ rest"
  by (simp add: scanFn_unfold split: prod.splits option.splits walk_call.splits)

lemma scanFn_visitedDirs:
  "visitedDirs (fst (scanFn ls path c s)) =
     (case c of WalkEntry d \<Rightarrow> if de_IsDir d then insert path (visitedDirs s) else visitedDirs s
              | WalkFailure d e \<Rightarrow> visitedDirs s)"
  by (simp add: scanFn_unfold split: prod.splits option.splits walk_call.splits)

lemma walk_lastScan:
  "lastScan (plr (fst (walkDir (scanFn ls) path n s))) = lastScan (plr s)"
  by (rule walkDir_walkDirs_rel(1)[where R = "\<lambda>s s'. lastScan (plr s') = lastScan (plr s)"])
     (simp_all add: scanFn_lastScan)

lemma walkDirs_calls_grow:
  "\<exists>rest. calls (fst (walkDirs (scanFn ls) path ns s)) = calls s @ rest"
  by (rule walkDir_walkDirs_rel(2)[where R = "\<lambda>s s'. \<exists>rest. calls s' = calls s @ rest"])
     (auto simp: scanFn_calls_grow)

lemma walk_visitedDirs:
  shows "visitedDirs (fst (walkDir (scanFn ls) path n s)) \<subseteq> visitedDirs s \<union> dir_paths path n"
    and "visitedDirs (fst (walkDirs (scanFn ls) path ns s)) \<subseteq> visitedDirs s \<union> dir_paths_list path ns"
proof (induction "scanFn ls :: string \<Rightarrow> walk_call \<Rightarrow> 'a scan_state \<Rightarrow> 'a scan_state \<times> werror option" path n s
         and "scanFn ls :: string \<Rightarrow> walk_call \<Rightarrow> 'a scan_state \<Rightarrow> 'a scan_state \<times> werror option" path ns s
         rule: walkDir_walkDirs.induct)
  case (1 path d dirs rderr s)
  obtain s1 r1 where c1: "scanFn ls path (WalkEntry d) s = (s1, r1)"
    by (cases "scanFn ls path (WalkEntry d) s")
  have v1: "visitedDirs s1 = (if de_IsDir d then insert path (visitedDirs s) else visitedDirs s)"
    using scanFn_visitedDirs[of ls path "WalkEntry d" s] c1 by simp
  show ?case
  proof (cases r1)
    case (Some e)
    then show ?thesis using c1 v1 by auto
  next
    case None
    note n1 = None
    show ?thesis
    proof (cases "de_IsDir d")
      case False
      then show ?thesis using c1 n1 v1 by simp
    next
      case True
      obtain s2 r2 where c2: "(if rderr then scanFn ls path (WalkFailure (Some d) ReadDirError) s1 else (s1, None)) = (s2, r2)"
        by (cases "(if rderr then scanFn ls path (WalkFailure (Some d) ReadDirError) s1 else (s1, None))")
      have v2: "visitedDirs s2 = visitedDirs s1"
        using scanFn_visitedDirs[of ls path "WalkFailure (Some d) ReadDirError" s1] c2
        by (cases rderr) auto
      show ?thesis
      proof (cases r2)
        case (Some e)
        then show ?thesis using c1 n1 True c2 v1 v2 by auto
      next
        case None
        have "visitedDirs (fst (walkDirs (scanFn ls) path dirs s2)) \<subseteq> visitedDirs s2 \<union> dir_paths_list path dirs"
          using "1.hyps"[OF c1[symmetric] n1 _ c2[symmetric] None] True by simp
        then show ?thesis using c1 n1 True c2 None v1 v2 by auto
      qed
    qed
  qed
next
  case (2 path s)
  then show ?case by simp
next
  case (3 path n ns s)
  obtain s1 r1 where c1: "walkDir (scanFn ls) (Join path (de_Name (node_entry n))) n s = (s1, r1)"
    by (cases "walkDir (scanFn ls) (Join path (de_Name (node_entry n))) n s")
  have v1: "visitedDirs s1 \<subseteq> visitedDirs s \<union> dir_paths (Join path (de_Name (node_entry n))) n"
    using "3.hyps"(1) c1 by simp
  show ?case
  proof (cases r1)
    case None
    have "visitedDirs (fst (walkDirs (scanFn ls) path ns s1)) \<subseteq> visitedDirs s1 \<union> dir_paths_list path ns"
      using "3.hyps"(2)[OF c1[symmetric] None] by simp
    then show ?thesis using c1 None v1 by auto
  next
    case (Some e)
    then show ?thesis using c1 v1 by auto
  qed
qed

lemmas ex_defs = ex_info_def ex_dir_def ex_file_def ex_tree_def ex_handler_def ex_poller_def
  NewPoller_def scan_init_def Scan_def WalkDir_def Join_def HasPrefix_def IsZero_def
  cleanupDirModTime_def

section \<open>What a scan records and what the next scan prunes\<close>

lemma walk_invariant:
  shows "(\<forall>path d s. Q path d \<longrightarrow> I s \<longrightarrow> I (fst (fn path (WalkEntry d) s))) \<Longrightarrow>
         (\<forall>path d e s. I s \<longrightarrow> I (fst (fn path (WalkFailure d e) s))) \<Longrightarrow>
         all_entries Q path n \<Longrightarrow> I s \<Longrightarrow> I (fst (walkDir fn path n s))"
    and "(\<forall>path d s. Q path d \<longrightarrow> I s \<longrightarrow> I (fst (fn path (WalkEntry d) s))) \<Longrightarrow>
         (\<forall>path d e s. I s \<longrightarrow> I (fst (fn path (WalkFailure d e) s))) \<Longrightarrow>
         all_entries_list Q path ns \<Longrightarrow> I s \<Longrightarrow> I (fst (walkDirs fn path ns s))"
proof (induction fn path n s and fn path ns s rule: walkDir_walkDirs.induct)
  case (1 fn path d dirs rderr s)
  note entry = "1.prems"(1)[rule_format]
  note failure = "1.prems"(2)[rule_format]
  have Qd: "Q path d" and Qs: "all_entries_list Q path dirs" using "1.prems"(3) by simp_all
  obtain s1 r1 where c1: "fn path (WalkEntry d) s = (s1, r1)" by (cases "fn path (WalkEntry d) s")
  have i1: "I s1" using entry[OF Qd "1.prems"(4)] c1 by simp
  show ?case
  proof (cases r1)
    case (Some e)
    then show ?thesis using c1 i1 by simp
  next
    case None
    note n1 = None
    show ?thesis
    proof (cases "de_IsDir d")
      case False
      then show ?thesis using c1 n1 i1 by simp
    next
      case True
      obtain s2 r2 where c2: "(if rderr then fn path (WalkFailure (Some d) ReadDirError) s1 else (s1, None)) = (s2, r2)"
        by (cases "(if rderr then fn path (WalkFailure (Some d) ReadDirError) s1 else (s1, None))")
      have i2: "I s2" using failure[OF i1, of path "Some d" ReadDirError] c2 i1
        by (cases rderr) auto
      show ?thesis
      proof (cases r2)
        case (Some e)
        then show ?thesis using c1 n1 True c2 i2 by simp
      next
        case None
        have "I (fst (walkDirs fn path dirs s2))"
          using "1.IH"[OF c1[symmetric] n1 _ c2[symmetric] None "1.prems"(1,2) Qs i2] True by simp
        then show ?thesis using c1 n1 True c2 None by simp
      qed
    qed
  qed
next
  case (2 fn path s)
  then show ?case by simp
next
  case (3 fn path n ns s)
  have Qn: "all_entries Q (Join path (de_Name (node_entry n))) n"
    and Qs: "all_entries_list Q path ns" using "3.prems"(3) by simp_all
  obtain s1 r1 where c1: "walkDir fn (Join path (de_Name (node_entry n))) n s = (s1, r1)"
    by (cases "walkDir fn (Join path (de_Name (node_entry n))) n s")
  have i1: "I s1" using "3.IH"(1)[OF "3.prems"(1,2) Qn "3.prems"(4)] c1 by simp
  show ?case
  proof (cases r1)
    case None
    have "I (fst (walkDirs fn path ns s1))"
      using "3.IH"(2)[OF c1[symmetric] None "3.prems"(1,2) Qs i1] by simp
    then show ?thesis using c1 None by simp
  next
    case (Some e)
    then show ?thesis using c1 i1 by simp
  qed
qed

lemma scanFn_plr_frame:
  "root (plr (fst (scanFn ls path c s))) = root (plr s)
   \<and> handler (plr (fst (scanFn ls path c s))) = handler (plr s)
   \<and> skipDirs (plr (fst (scanFn ls path c s))) = skipDirs (plr s)
   \<and> lastScan (plr (fst (scanFn ls path c s))) = lastScan (plr s)"
  by (simp add: scanFn_unfold split: prod.splits option.splits walk_call.splits)

lemma walk_plr_frame:
  "root (plr (fst (walkDir (scanFn ls) path n s))) = root (plr s)
   \<and> handler (plr (fst (walkDir (scanFn ls) path n s))) = handler (plr s)
   \<and> skipDirs (plr (fst (walkDir (scanFn ls) path n s))) = skipDirs (plr s)
   \<and> lastScan (plr (fst (walkDir (scanFn ls) path n s))) = lastScan (plr s)"
  by (rule walkDir_walkDirs_rel(1)[where R = "\<lambda>s s'. root (plr s') = root (plr s)
        \<and> handler (plr s') = handler (plr s) \<and> skipDirs (plr s') = skipDirs (plr s)
        \<and> lastScan (plr s') = lastScan (plr s)"])
     (simp_all add: scanFn_plr_frame)

lemma Scan_plr_frame:
  "root (plr (fst (Scan p t lstat h))) = root p
   \<and> handler (plr (fst (Scan p t lstat h))) = handler p
   \<and> skipDirs (plr (fst (Scan p t lstat h))) = skipDirs p
   \<and> lastScan (plr (fst (Scan p t lstat h))) = t"
  by (cases lstat)
     (simp_all add: Scan_def Let_def WalkDir_def split_beta cleanupDirModTime_def
        walk_plr_frame scanFn_plr_frame scan_init_def)

lemma recorded_inv_entry:
  assumes ls: "\<not> IsZero ls"
    and H: "\<forall>info h e. fst (H q info h) = Some e \<longrightarrow> \<not> errors_Is_ErrSkipDir e"
    and Q: "has_mtime q m path d \<and> spared K q path d"
    and I: "recorded_inv H K q m s"
  shows "recorded_inv H K q m (fst (scanFn ls path (WalkEntry d) s))"
proof (cases "path = q \<and> de_IsDir d")
  case False
  then show ?thesis using I
    by (auto simp: recorded_inv_def scanFn_unfold split: prod.splits option.splits)
next
  case True
  then obtain info where info: "de_Info d = Some info" "ModTime info = m"
    using Q by (auto simp: has_mtime_def split: option.splits)
  have name: "de_Name d \<notin> K" "\<not> (HasPrefix (de_Name d) ''.'' \<and> de_Name d \<noteq> ''.'')"
    using Q True by (auto simp: spared_def)
  obtain herr h' where h: "H q info (hstate s) = (herr, h')" by (cases "H q info (hstate s)")
  have noskip: "herr = None \<or> (\<exists>e. herr = Some e \<and> \<not> errors_Is_ErrSkipDir e)"
    using H[rule_format, of info "hstate s"] h by (cases herr) auto
  show ?thesis using True info name h noskip I ls
    by (auto simp: recorded_inv_def scanFn_unfold split: option.splits)
qed

lemma recorded_inv_failure:
  "recorded_inv H K q m s \<Longrightarrow> recorded_inv H K q m (fst (scanFn ls path (WalkFailure d e) s))"
  by (simp add: recorded_inv_def scanFn_def Let_def)

lemma Scan_records_fingerprint:
  assumes ls: "\<not> IsZero (lastScan p)"
    and H: "\<forall>info h e. fst (handler p q info h) = Some e \<longrightarrow> \<not> errors_Is_ErrSkipDir e"
    and T: "all_entries (\<lambda>path d. has_mtime q m path d \<and> spared (skipDirs p) q path d) (root p) T"
    and v: "q \<in> visitedDirs (fst (Scan p t (Some T) h))"
  shows "dirModTime (plr (fst (Scan p t (Some T) h))) q = Some m"
proof -
  let ?s0 = "scan_init p t h"
  let ?s1 = "fst (walkDir (scanFn (lastScan p)) (root p) T ?s0)"
  have i0: "recorded_inv (handler p) (skipDirs p) q m ?s0"
    by (simp add: recorded_inv_def scan_init_def)
  have e: "\<forall>path d s. has_mtime q m path d \<and> spared (skipDirs p) q path d
        \<longrightarrow> recorded_inv (handler p) (skipDirs p) q m s
        \<longrightarrow> recorded_inv (handler p) (skipDirs p) q m (fst (scanFn (lastScan p) path (WalkEntry d) s))"
    using recorded_inv_entry[where H = "handler p" and q = q and ls = "lastScan p", OF ls H]
    by blast
  have f: "\<forall>path d e s. recorded_inv (handler p) (skipDirs p) q m s
        \<longrightarrow> recorded_inv (handler p) (skipDirs p) q m (fst (scanFn (lastScan p) path (WalkFailure d e) s))"
    using recorded_inv_failure by blast
  have i1: "recorded_inv (handler p) (skipDirs p) q m ?s1"
    using e f T i0 by (rule walk_invariant(1))
  have S: "fst (Scan p t (Some T) h) =
      ?s1\<lparr>plr := cleanupDirModTime (plr ?s1) (visitedDirs ?s1),
        logged := logged ?s1 @ [ScanCompleted (fileCount ?s1) (dirCount ?s1) (skippedDirs ?s1)]\<rparr>"
    by (simp add: Scan_def Let_def WalkDir_def split_beta)
  have "q \<in> visitedDirs ?s1" using v by (simp add: S)
  then show ?thesis using i1 by (simp add: S recorded_inv_def cleanupDirModTime_def)
qed

lemma scanFn_visited:
  "visited (fst (scanFn ls path c s)) = visited s @ [path]"
  by (simp add: scanFn_unfold split: prod.splits option.splits walk_call.splits)

lemma scanFn_keeps_entry:
  assumes "has_mtime q m path d" and "dirModTime (plr s) q = Some m"
  shows "dirModTime (plr (fst (scanFn ls path (WalkEntry d) s))) q = Some m"
  using assms
  by (auto simp: scanFn_unfold has_mtime_def split: prod.splits option.splits)

lemma scanFn_failure_table:
  "dirModTime (plr (fst (scanFn ls path (WalkFailure d e) s))) = dirModTime (plr s)"
  by (simp add: scanFn_def Let_def)

lemma scanFn_prunes_unchanged:
  assumes "\<not> IsZero ls" and "has_mtime q m q d" and "de_IsDir d"
    and "dirModTime (plr s) q = Some m"
  shows "snd (scanFn ls q (WalkEntry d) s) = Some SkipDir"
  using assms
  by (auto simp: scanFn_unfold has_mtime_def split: prod.splits option.splits)

lemma pruned_walk:
  assumes ls: "\<not> IsZero ls"
  shows "all_entries (has_mtime q m) path n \<Longrightarrow> dirModTime (plr s) q = Some m \<Longrightarrow>
           dirModTime (plr (fst (walkDir (scanFn ls) path n s))) q = Some m
           \<and> set (visited (fst (walkDir (scanFn ls) path n s)))
                \<subseteq> set (visited s) \<union> reach_paths q path n"
    and "all_entries_list (has_mtime q m) path ns \<Longrightarrow> dirModTime (plr s) q = Some m \<Longrightarrow>
           dirModTime (plr (fst (walkDirs (scanFn ls) path ns s))) q = Some m
           \<and> set (visited (fst (walkDirs (scanFn ls) path ns s)))
                \<subseteq> set (visited s) \<union> reach_paths_list q path ns"
proof (induction "scanFn ls :: string \<Rightarrow> walk_call \<Rightarrow> 'a scan_state \<Rightarrow> 'a scan_state \<times> werror option" path n s
         and "scanFn ls :: string \<Rightarrow> walk_call \<Rightarrow> 'a scan_state \<Rightarrow> 'a scan_state \<times> werror option" path ns s
         rule: walkDir_walkDirs.induct)
  case (1 path d dirs rderr s)
  have Qd: "has_mtime q m path d" and Qs: "all_entries_list (has_mtime q m) path dirs"
    using "1.prems"(1) by simp_all
  obtain s1 r1 where c1: "scanFn ls path (WalkEntry d) s = (s1, r1)"
    by (cases "scanFn ls path (WalkEntry d) s")
  have v1: "visited s1 = visited s @ [path]"
    using scanFn_visited[of ls path "WalkEntry d" s] c1 by simp
  have t1: "dirModTime (plr s1) q = Some m"
    using scanFn_keeps_entry[OF Qd "1.prems"(2), of ls] c1 by simp
  show ?case
  proof (cases "path = q \<and> de_IsDir d")
    case True
    then have "r1 = Some SkipDir"
      using scanFn_prunes_unchanged[OF ls _ _ "1.prems"(2), of d] Qd c1 by simp
    then show ?thesis using c1 v1 t1 True by simp
  next
    case False
    note other = False
    show ?thesis
    proof (cases r1)
      case (Some e)
      then show ?thesis using c1 v1 t1 other by auto
    next
      case None
      note n1 = None
      show ?thesis
      proof (cases "de_IsDir d")
        case False
        then show ?thesis using c1 n1 v1 t1 by auto
      next
        case True
        obtain s2 r2 where c2: "(if rderr then scanFn ls path (WalkFailure (Some d) ReadDirError) s1 else (s1, None)) = (s2, r2)"
          by (cases "(if rderr then scanFn ls path (WalkFailure (Some d) ReadDirError) s1 else (s1, None))")
        have v2: "set (visited s2) = set (visited s1)"
          using scanFn_visited[of ls path "WalkFailure (Some d) ReadDirError" s1] c2 v1
          by (cases rderr) auto
        have t2: "dirModTime (plr s2) q = Some m"
          using scanFn_failure_table[of ls path "Some d" ReadDirError s1] c2 t1
          by (cases rderr) auto
        show ?thesis
        proof (cases r2)
          case (Some e)
          then show ?thesis using c1 n1 True c2 v1 v2 t2 other by auto
        next
          case None
          have "dirModTime (plr (fst (walkDirs (scanFn ls) path dirs s2))) q = Some m
              \<and> set (visited (fst (walkDirs (scanFn ls) path dirs s2)))
                   \<subseteq> set (visited s2) \<union> reach_paths_list q path dirs"
            using "1.hyps"[OF c1[symmetric] n1 _ c2[symmetric] None Qs t2] True by simp
          then show ?thesis using c1 n1 True c2 None v1 v2 other by auto
        qed
      qed
    qed
  qed
next
  case (2 path s)
  then show ?case by simp
next
  case (3 path n ns s)
  have Qn: "all_entries (has_mtime q m) (Join path (de_Name (node_entry n))) n"
    and Qs: "all_entries_list (has_mtime q m) path ns" using "3.prems"(1) by simp_all
  obtain s1 r1 where c1: "walkDir (scanFn ls) (Join path (de_Name (node_entry n))) n s = (s1, r1)"
    by (cases "walkDir (scanFn ls) (Join path (de_Name (node_entry n))) n s")
  have h1: "dirModTime (plr s1) q = Some m
      \<and> set (visited s1) \<subseteq> set (visited s) \<union> reach_paths q (Join path (de_Name (node_entry n))) n"
    using "3.hyps"(1)[OF Qn "3.prems"(2)] c1 by simp
  show ?case
  proof (cases r1)
    case None
    have "dirModTime (plr (fst (walkDirs (scanFn ls) path ns s1))) q = Some m
        \<and> set (visited (fst (walkDirs (scanFn ls) path ns s1)))
             \<subseteq> set (visited s1) \<union> reach_paths_list q path ns"
      using "3.hyps"(2)[OF c1[symmetric] None Qs] h1 by simp
    then show ?thesis using c1 None h1 by auto
  next
    case (Some e)
    then show ?thesis using c1 h1 by auto
  qed
qed

lemma scanFn_calls_cases:
  "calls (fst (scanFn ls path c s)) = calls s
   \<or> (\<exists>info. calls (fst (scanFn ls path c s)) = calls s @ [(path, info)])"
  by (simp add: scanFn_unfold split: prod.splits option.splits walk_call.splits)

lemma scanFn_dir_called:
  "de_IsDir d \<Longrightarrow> de_Info d = Some info
     \<Longrightarrow> calls (fst (scanFn ls path (WalkEntry d) s)) = calls s @ [(path, info)]"
  by (simp add: scanFn_unfold split: prod.splits option.splits)

lemma called_inv_entry:
  assumes Q: "has_mtime q m path d" and I: "called_inv q m s"
  shows "called_inv q m (fst (scanFn ls path (WalkEntry d) s))"
proof (cases "path = q \<and> de_IsDir d")
  case True
  then obtain info where info: "de_Info d = Some info" "ModTime info = m"
    using Q by (auto simp: has_mtime_def split: option.splits)
  have "calls (fst (scanFn ls path (WalkEntry d) s)) = calls s @ [(path, info)]"
    using True info(1) by (simp add: scanFn_dir_called)
  then have "(q, info) \<in> set (calls (fst (scanFn ls path (WalkEntry d) s)))"
    using True by simp
  then show ?thesis using info(2) unfolding called_inv_def by blast
next
  case False
  have v: "q \<in> visitedDirs (fst (scanFn ls path (WalkEntry d) s)) \<Longrightarrow> q \<in> visitedDirs s"
    using False by (auto simp: scanFn_visitedDirs split: if_splits)
  obtain rest where "calls (fst (scanFn ls path (WalkEntry d) s)) = calls s @ rest"
    using scanFn_calls_grow by blast
  then have k: "set (calls s) \<subseteq> set (calls (fst (scanFn ls path (WalkEntry d) s)))" by simp
  show ?thesis unfolding called_inv_def
  proof
    assume "q \<in> visitedDirs (fst (scanFn ls path (WalkEntry d) s))"
    then have "q \<in> visitedDirs s" by (rule v)
    then obtain info where "ModTime info = m" "(q, info) \<in> set (calls s)"
      using I unfolding called_inv_def by blast
    then show "\<exists>info. ModTime info = m \<and> (q, info) \<in> set (calls (fst (scanFn ls path (WalkEntry d) s)))"
      using k by blast
  qed
qed

lemma called_inv_failure:
  "called_inv q m s \<Longrightarrow> called_inv q m (fst (scanFn ls path (WalkFailure d e) s))"
  by (simp add: called_inv_def scanFn_def Let_def)

lemma scanFn_calls_visited:
  assumes "fst ` set (calls s) \<subseteq> set (visited s)"
  shows "fst ` set (calls (fst (scanFn ls path c s))) \<subseteq> set (visited (fst (scanFn ls path c s)))"
proof -
  have v: "visited (fst (scanFn ls path c s)) = visited s @ [path]"
    by (simp add: scanFn_unfold split: prod.splits option.splits walk_call.splits)
  have old: "fst ` set (calls s) \<subseteq> set (visited s @ [path])" using assms by auto
  show ?thesis unfolding v
  proof (rule disjE[OF scanFn_calls_cases[of ls path c s]])
    assume "calls (fst (scanFn ls path c s)) = calls s"
    then show "fst ` set (calls (fst (scanFn ls path c s))) \<subseteq> set (visited s @ [path])"
      using old by simp
  next
    assume "\<exists>info. calls (fst (scanFn ls path c s)) = calls s @ [(path, info)]"
    then obtain info where "calls (fst (scanFn ls path c s)) = calls s @ [(path, info)]" by blast
    then show "fst ` set (calls (fst (scanFn ls path c s))) \<subseteq> set (visited s @ [path])"
      using old by simp
  qed
qed

lemma walk_calls_visited:
  assumes "fst ` set (calls s) \<subseteq> set (visited s)"
  shows "fst ` set (calls (fst (walkDir (scanFn ls) path n s)))
           \<subseteq> set (visited (fst (walkDir (scanFn ls) path n s)))"
proof -
  have "fst ` set (calls s) \<subseteq> set (visited s)
        \<longrightarrow> fst ` set (calls (fst (walkDir (scanFn ls) path n s)))
              \<subseteq> set (visited (fst (walkDir (scanFn ls) path n s)))"
    by (rule walkDir_walkDirs_rel(1)[where R = "\<lambda>s s'. fst ` set (calls s) \<subseteq> set (visited s)
        \<longrightarrow> fst ` set (calls s') \<subseteq> set (visited s')"])
       (simp_all add: scanFn_calls_visited)
  then show ?thesis using assms by simp
qed

lemma Scan_Some:
  "fst (Scan p t (Some T) h) =
     (fst (walkDir (scanFn (lastScan p)) (root p) T (scan_init p t h)))
       \<lparr>plr := cleanupDirModTime
                 (plr (fst (walkDir (scanFn (lastScan p)) (root p) T (scan_init p t h))))
                 (visitedDirs (fst (walkDir (scanFn (lastScan p)) (root p) T (scan_init p t h)))),
        logged := logged (fst (walkDir (scanFn (lastScan p)) (root p) T (scan_init p t h)))
          @ [ScanCompleted
               (fileCount (fst (walkDir (scanFn (lastScan p)) (root p) T (scan_init p t h))))
               (dirCount (fst (walkDir (scanFn (lastScan p)) (root p) T (scan_init p t h))))
               (skippedDirs (fst (walkDir (scanFn (lastScan p)) (root p) T (scan_init p t h))))]\<rparr>"
  by (simp add: Scan_def Let_def WalkDir_def split_beta)

lemma Scan_after_recorded:
  assumes ls: "\<not> IsZero (lastScan p)"
    and tab: "dirModTime p q = Some m"
    and T: "all_entries (has_mtime q m) (root p) T"
  shows "set (visited (fst (Scan p t (Some T) h))) \<subseteq> reach_paths q (root p) T"
    and "fst ` set (calls (fst (Scan p t (Some T) h))) \<subseteq> reach_paths q (root p) T"
    and "q \<in> visitedDirs (fst (Scan p t (Some T) h))
           \<longrightarrow> (\<exists>info. ModTime info = m \<and> (q, info) \<in> set (calls (fst (Scan p t (Some T) h))))"
proof -
  let ?s0 = "scan_init p t h"
  let ?w = "fst (walkDir (scanFn (lastScan p)) (root p) T ?s0)"
  have t0: "dirModTime (plr ?s0) q = Some m" using tab by (simp add: scan_init_def)
  have v: "set (visited ?w) \<subseteq> set (visited ?s0) \<union> reach_paths q (root p) T"
    using pruned_walk(1)[OF ls T t0] by simp
  then have v': "set (visited ?w) \<subseteq> reach_paths q (root p) T" by (simp add: scan_init_def)
  have "fst ` set (calls ?s0) \<subseteq> set (visited ?s0)" by (simp add: scan_init_def)
  then have c: "fst ` set (calls ?w) \<subseteq> set (visited ?w)" by (rule walk_calls_visited)
  have e: "\<forall>path d s. has_mtime q m path d \<longrightarrow> called_inv q m s
        \<longrightarrow> called_inv q m (fst (scanFn (lastScan p) path (WalkEntry d) s))"
    using called_inv_entry by blast
  have f: "\<forall>path d e s. called_inv q m s
        \<longrightarrow> called_inv q m (fst (scanFn (lastScan p) path (WalkFailure d e) s))"
    using called_inv_failure by blast
  have i0: "called_inv q m ?s0" by (simp add: called_inv_def scan_init_def)
  have i: "called_inv q m ?w" using e f T i0 by (rule walk_invariant(1))
  show "set (visited (fst (Scan p t (Some T) h))) \<subseteq> reach_paths q (root p) T"
    using v' by (simp add: Scan_Some)
  show "fst ` set (calls (fst (Scan p t (Some T) h))) \<subseteq> reach_paths q (root p) T"
    using c v' unfolding Scan_Some by auto
  show "q \<in> visitedDirs (fst (Scan p t (Some T) h))
           \<longrightarrow> (\<exists>info. ModTime info = m \<and> (q, info) \<in> set (calls (fst (Scan p t (Some T) h))))"
    using i by (simp add: Scan_Some called_inv_def)
qed

section \<open>Gating, pruning and the table of modification times\<close>

text \<open>
  C7 (as amended). For a file that the walk reaches and whose metadata \<^verbatim>\<open>d.Info()\<close>
  returns: when a previous scan exists (its start time, \<open>lastScan p\<close>, is not the zero
  time) and the file's modification time is strictly before that start time, the
  handler is not invoked for the file; otherwise it is invoked, once, with the path and
  the metadata. The start time of a scan is what the poller keeps for the next scan.
\<close>

theorem Scan_file_modtime_gate:
  "(\<not> de_IsDir d \<and> de_Info d = Some info \<longrightarrow>
      calls (fst (walkDir (scanFn (lastScan p)) path (FsNode d dirs rderr) s)) =
        (if \<not> IsZero (lastScan p) \<and> ModTime info < lastScan p then calls s
         else calls s @ [(path, info)]))
   \<and> lastScan (plr (fst (Scan p scanStart lstat h))) = scanStart"
proof -
  have "lastScan (plr (fst (WalkDir (root p) lstat (scanFn (lastScan p)) (scan_init p scanStart h)))) = scanStart"
    by (cases lstat) (simp_all add: WalkDir_def split_beta walk_lastScan scanFn_lastScan scan_init_def)
  then have "lastScan (plr (fst (Scan p scanStart lstat h))) = scanStart"
    by (simp add: Scan_def Let_def split_beta cleanupDirModTime_def)
  moreover have "\<not> de_IsDir d \<and> de_Info d = Some info \<longrightarrow>
      calls (fst (walkDir (scanFn (lastScan p)) path (FsNode d dirs rderr) s)) =
        (if \<not> IsZero (lastScan p) \<and> ModTime info < lastScan p then calls s
         else calls s @ [(path, info)])"
    by (simp add: scanFn_unfold split: prod.splits option.splits)
  ultimately show ?thesis by blast
qed

theorem Scan_file_modtime_gate_witness:
  "map fst (calls (fst (walkDir (scanFn (lastScan ((ex_poller ''/r'')\<lparr>lastScan := 10\<rparr>))) ''/r/x.log''
       (ex_file ''x.log'' 5) (scan_init (ex_poller ''/r'') 20 ())))) = []
   \<and> map fst (calls (fst (walkDir (scanFn (lastScan ((ex_poller ''/r'')\<lparr>lastScan := 10\<rparr>))) ''/r/x.log''
       (ex_file ''x.log'' 10) (scan_init (ex_poller ''/r'') 20 ())))) = [''/r/x.log'']"
  using Scan_file_modtime_gate[of "DirEntry ''x.log'' False (Some (ex_info ''x.log'' 5 False))"
      "ex_info ''x.log'' 5 False" "(ex_poller ''/r'')\<lparr>lastScan := 10\<rparr>" "''/r/x.log''" "[]" False
      "scan_init (ex_poller ''/r'') 20 ()"]
    Scan_file_modtime_gate[of "DirEntry ''x.log'' False (Some (ex_info ''x.log'' 10 False))"
      "ex_info ''x.log'' 10 False" "(ex_poller ''/r'')\<lparr>lastScan := 10\<rparr>" "''/r/x.log''" "[]" False
      "scan_init (ex_poller ''/r'') 20 ()"]
  by (simp add: ex_defs)

text \<open>
  Without the metadata the statement fails: on a first scan, a file whose \<^verbatim>\<open>d.Info()\<close>
  returns an error is visited and the handler is not invoked for it.
\<close>

theorem Scan_file_info_failure_counterexample:
  "visited (fst (Scan (ex_poller ''/r'') 10
      (Some (ex_dir ''r'' 5 [FsNode (DirEntry ''x.log'' False None) [] False])) ()))
     = [''/r'', ''/r/x.log'']
   \<and> map fst (calls (fst (Scan (ex_poller ''/r'') 10
      (Some (ex_dir ''r'' 5 [FsNode (DirEntry ''x.log'' False None) [] False])) ())))
     = [''/r'']
   \<and> IsZero (lastScan (ex_poller ''/r''))"
  by (simp add: ex_defs scanFn_unfold)

text \<open>
  C6 (as amended). For a directory that the walk reaches and whose metadata
  \<^verbatim>\<open>d.Info()\<close> returns, the handler is invoked on the directory before anything under
  it: the handler invocations of the walk of that directory start with the one for the
  directory itself. And when the handler returns an error that is \<open>ErrSkipDir\<close>, the walk
  of the directory is exactly that one callback: nothing under it is visited, and the
  poller, with its table of modification times, is left as it was.
\<close>

theorem Scan_handler_before_descent:
  "(de_IsDir d \<and> de_Info d = Some info \<longrightarrow>
      (\<exists>rest. calls (fst (walkDir (scanFn ls) path (FsNode d dirs rderr) s))
                = calls s @ (path, info) # rest))
   \<and> (de_IsDir d \<and> de_Info d = Some info
        \<and> handler (plr s) path info (hstate s) = (Some err, h') \<and> errors_Is_ErrSkipDir err \<longrightarrow>
        walkDir (scanFn ls) path (FsNode d dirs rderr) s =
          (s\<lparr>visited := visited s @ [path],
             dirCount := dirCount s + 1,
             visitedDirs := insert path (visitedDirs s),
             hstate := h',
             calls := calls s @ [(path, info)],
             logged := logged s @ [SkippingIgnoredDir path],
             skippedDirs := skippedDirs s + 1\<rparr>, None))"
proof (intro conjI impI)
  assume a: "de_IsDir d \<and> de_Info d = Some info"
  obtain s1 r1 where c1: "scanFn ls path (WalkEntry d) s = (s1, r1)"
    by (cases "scanFn ls path (WalkEntry d) s")
  have k1: "calls s1 = calls s @ [(path, info)]"
    using a c1 by (auto simp: scanFn_unfold split: prod.splits option.splits if_splits)
  obtain s2 r2 where c2: "(if rderr then scanFn ls path (WalkFailure (Some d) ReadDirError) s1 else (s1, None)) = (s2, r2)"
    by (cases "(if rderr then scanFn ls path (WalkFailure (Some d) ReadDirError) s1 else (s1, None))")
  have k2: "calls s2 = calls s1"
    using c2 by (cases rderr) (auto simp: scanFn_def Let_def)
  obtain rest where k3: "calls (fst (walkDirs (scanFn ls) path dirs s2)) = calls s2 @ rest"
    using walkDirs_calls_grow by blast
  have "calls (fst (walkDir (scanFn ls) path (FsNode d dirs rderr) s)) = calls s @ [(path, info)]
        \<or> calls (fst (walkDir (scanFn ls) path (FsNode d dirs rderr) s)) = calls s @ [(path, info)] @ rest"
    using a c1 c2 k1 k2 k3 by (cases r1; cases r2) auto
  then show "\<exists>rest. calls (fst (walkDir (scanFn ls) path (FsNode d dirs rderr) s))
                = calls s @ (path, info) # rest"
    by auto
next
  assume "de_IsDir d \<and> de_Info d = Some info
        \<and> handler (plr s) path info (hstate s) = (Some err, h') \<and> errors_Is_ErrSkipDir err"
  then show "walkDir (scanFn ls) path (FsNode d dirs rderr) s =
          (s\<lparr>visited := visited s @ [path],
             dirCount := dirCount s + 1,
             visitedDirs := insert path (visitedDirs s),
             hstate := h',
             calls := calls s @ [(path, info)],
             logged := logged s @ [SkippingIgnoredDir path],
             skippedDirs := skippedDirs s + 1\<rparr>, None)"
    by (simp add: scanFn_unfold)
qed

theorem Scan_handler_before_descent_witness:
  "map fst (calls (fst (Scan ((ex_poller ''/r'')\<lparr>handler := ex_skip_handler\<rparr>) 10 (Some ex_tree) ())))
     = [''/r'', ''/r/a'']
   \<and> walkDir (scanFn 0) ''/r/a'' (ex_dir ''a'' 5 [ex_file ''x.log'' 5])
        (scan_init ((ex_poller ''/r'')\<lparr>handler := ex_skip_handler\<rparr>) 10 ())
      = ((scan_init ((ex_poller ''/r'')\<lparr>handler := ex_skip_handler\<rparr>) 10 ())
           \<lparr>visited := [''/r/a''], dirCount := 1, visitedDirs := {''/r/a''}, hstate := (),
            calls := [(''/r/a'', ex_info ''a'' 5 True)],
            logged := [StartingScan ''/r'', SkippingIgnoredDir ''/r/a''],
            skippedDirs := 1\<rparr>, None)"
  using Scan_handler_before_descent[of "DirEntry ''a'' True (Some (ex_info ''a'' 5 True))"
      "ex_info ''a'' 5 True" 0 "''/r/a''" "[ex_file ''x.log'' 5]" False
      "scan_init ((ex_poller ''/r'')\<lparr>handler := ex_skip_handler\<rparr>) 10 ()" ErrSkipDir "()"]
  by (simp add: ex_defs ex_skip_handler_def scanFn_unfold)

text \<open>
  Without the metadata the first part fails: a directory whose \<^verbatim>\<open>d.Info()\<close> returns an
  error is visited and descended into, and the handler is never invoked for it.
\<close>

theorem Scan_dir_info_failure_counterexample:
  "visited (fst (Scan (ex_poller ''/r'') 10
      (Some (ex_dir ''r'' 5 [FsNode (DirEntry ''a'' True None) [ex_file ''x.log'' 5] False])) ()))
     = [''/r'', ''/r/a'', ''/r/a/x.log'']
   \<and> map fst (calls (fst (Scan (ex_poller ''/r'') 10
      (Some (ex_dir ''r'' 5 [FsNode (DirEntry ''a'' True None) [ex_file ''x.log'' 5] False])) ())))
     = [''/r'', ''/r/a/x.log'']"
  by (simp add: ex_defs scanFn_unfold)

text \<open>
  C2 (as amended). Take two consecutive scans of which the earlier is not the first
  (neither the start time it finds in \<open>lastScan\<close> nor its own start time is the zero
  time) and a path \<open>q\<close> at which both scans find the same directory: whatever directory
  sits at \<open>q\<close> has readable metadata with the modification time \<open>m\<close>. Let its name be one
  the skip rule spares and let the handler not return \<open>ErrSkipDir\<close> for \<open>q\<close>. If the
  earlier scan visits the directory it leaves \<open>m\<close> in the table for \<open>q\<close>, and then the
  later scan visits nothing below the directory and invokes the handler for nothing
  below it: every path it visits or invokes the handler for belongs to an entry that
  does not lie below a directory at \<open>q\<close>; and if it visits the directory, it invokes the
  handler for it. In the walk itself: in a scan that is not the first, a directory
  whose metadata is read and for which the table holds its current modification time
  has the handler invoked for its own entry and is then pruned, the poller left as it
  was.
\<close>

theorem Scan_unchanged_dir_pruned:
  "(\<not> IsZero (lastScan p) \<and> \<not> IsZero t1
      \<and> (\<forall>info h e. fst (handler p q info h) = Some e \<longrightarrow> \<not> errors_Is_ErrSkipDir e)
      \<and> all_entries (\<lambda>path d. has_mtime q m path d \<and> spared (skipDirs p) q path d) (root p) T1
      \<and> q \<in> visitedDirs (fst (Scan p t1 (Some T1) h1))
      \<and> all_entries (has_mtime q m) (root p) T2
    \<longrightarrow> dirModTime (plr (fst (Scan p t1 (Some T1) h1))) q = Some m
      \<and> set (visited (fst (Scan (plr (fst (Scan p t1 (Some T1) h1))) t2 (Some T2) h2)))
           \<subseteq> reach_paths q (root p) T2
      \<and> fst ` set (calls (fst (Scan (plr (fst (Scan p t1 (Some T1) h1))) t2 (Some T2) h2)))
           \<subseteq> reach_paths q (root p) T2
      \<and> (q \<in> visitedDirs (fst (Scan (plr (fst (Scan p t1 (Some T1) h1))) t2 (Some T2) h2))
           \<longrightarrow> (\<exists>info. ModTime info = m
                 \<and> (q, info) \<in> set (calls (fst (Scan (plr (fst (Scan p t1 (Some T1) h1))) t2 (Some T2) h2))))))
   \<and> (de_IsDir d \<and> de_Info d = Some info \<and> \<not> IsZero ls
        \<and> dirModTime (plr s) path = Some (ModTime info)
    \<longrightarrow> snd (walkDir (scanFn ls) path (FsNode d dirs rderr) s) = None
      \<and> visited (fst (walkDir (scanFn ls) path (FsNode d dirs rderr) s)) = visited s @ [path]
      \<and> calls (fst (walkDir (scanFn ls) path (FsNode d dirs rderr) s)) = calls s @ [(path, info)]
      \<and> plr (fst (walkDir (scanFn ls) path (FsNode d dirs rderr) s)) = plr s)"
proof (intro conjI impI)
  assume a: "\<not> IsZero (lastScan p) \<and> \<not> IsZero t1
      \<and> (\<forall>info h e. fst (handler p q info h) = Some e \<longrightarrow> \<not> errors_Is_ErrSkipDir e)
      \<and> all_entries (\<lambda>path d. has_mtime q m path d \<and> spared (skipDirs p) q path d) (root p) T1
      \<and> q \<in> visitedDirs (fst (Scan p t1 (Some T1) h1))
      \<and> all_entries (has_mtime q m) (root p) T2"
  let ?p1 = "plr (fst (Scan p t1 (Some T1) h1))"
  have rec: "dirModTime ?p1 q = Some m"
    using a by (intro Scan_records_fingerprint) blast+
  have fr: "root ?p1 = root p" "lastScan ?p1 = t1"
    using Scan_plr_frame[of p t1 "Some T1" h1] by simp_all
  have ls1: "\<not> IsZero (lastScan ?p1)" using a fr by simp
  have T2: "all_entries (has_mtime q m) (root ?p1) T2" using a fr by simp
  show "dirModTime ?p1 q = Some m" by (rule rec)
  show "set (visited (fst (Scan ?p1 t2 (Some T2) h2))) \<subseteq> reach_paths q (root p) T2"
    using Scan_after_recorded(1)[OF ls1 rec T2, of t2 h2] fr by simp
  show "fst ` set (calls (fst (Scan ?p1 t2 (Some T2) h2))) \<subseteq> reach_paths q (root p) T2"
    using Scan_after_recorded(2)[OF ls1 rec T2, of t2 h2] fr by simp
  assume "q \<in> visitedDirs (fst (Scan ?p1 t2 (Some T2) h2))"
  then show "\<exists>info. ModTime info = m \<and> (q, info) \<in> set (calls (fst (Scan ?p1 t2 (Some T2) h2)))"
    using Scan_after_recorded(3)[OF ls1 rec T2, of t2 h2] by blast
next
  assume a: "de_IsDir d \<and> de_Info d = Some info \<and> \<not> IsZero ls
        \<and> dirModTime (plr s) path = Some (ModTime info)"
  let ?r = "scanFn ls path (WalkEntry d) s"
  have r: "snd ?r = Some SkipDir"
    using a by (simp add: scanFn_unfold split: prod.splits option.splits)
  have v: "visited (fst ?r) = visited s @ [path]"
    using a by (simp add: scanFn_unfold split: prod.splits option.splits)
  have k: "calls (fst ?r) = calls s @ [(path, info)]"
    using a by (simp add: scanFn_unfold split: prod.splits option.splits)
  have p: "plr (fst ?r) = plr s"
    using a by (simp add: scanFn_unfold split: prod.splits option.splits)
  have w: "walkDir (scanFn ls) path (FsNode d dirs rderr) s = (fst ?r, None)"
    using r a by (simp add: split_beta)
  show "snd (walkDir (scanFn ls) path (FsNode d dirs rderr) s) = None" using w by simp
  show "visited (fst (walkDir (scanFn ls) path (FsNode d dirs rderr) s)) = visited s @ [path]"
    using w v by simp
  show "calls (fst (walkDir (scanFn ls) path (FsNode d dirs rderr) s)) = calls s @ [(path, info)]"
    using w k by simp
  show "plr (fst (walkDir (scanFn ls) path (FsNode d dirs rderr) s)) = plr s"
    using w p by simp
qed

theorem Scan_unchanged_dir_pruned_witness:
  "lastScan ex_scanned = 10 \<and> dirModTime ex_scanned = Map.empty
   \<and> dirModTime (plr (fst (Scan ex_scanned 20 (Some ex_tree) ()))) ''/r'' = Some 5
   \<and> map fst (calls (fst (Scan ex_scanned 20 (Some ex_tree) ()))) = [''/r'', ''/r/a'']
   \<and> map fst (calls (fst (Scan (plr (fst (Scan ex_scanned 20 (Some ex_tree) ()))) 30 (Some ex_tree) ())))
       = [''/r'']
   \<and> reach_paths ''/r'' ''/r'' ex_tree = {''/r''}"
  using Scan_unchanged_dir_pruned[where p = ex_scanned and ?t1.0 = 20 and q = "''/r''" and m = 5
      and ?T1.0 = ex_tree and ?h1.0 = "()" and ?T2.0 = ex_tree and ?t2.0 = 30 and ?h2.0 = "()"
      and d = "DirEntry ''r'' True (Some (ex_info ''r'' 5 True))" and info = "ex_info ''r'' 5 True"
      and ls = 20 and path = "''/r''" and dirs = "[ex_dir ''a'' 5 [ex_file ''x.log'' 5]]"
      and rderr = False
      and s = "scan_init (ex_scanned\<lparr>lastScan := 20, dirModTime := [''/r'' \<mapsto> 5]\<rparr>) 30 ()"]
  by (simp add: ex_scanned_def ex_defs scanFn_unfold has_mtime_def spared_def)

text \<open>
  The first scan records nothing in the table, so of two consecutive scans of an
  unchanged tree of which the earlier is the first, the later still descends: after
  the first scan of the example tree the second scan invokes the handler for \<^verbatim>\<open>/r\<close>
  and for its descendant \<^verbatim>\<open>/r/a\<close>.
\<close>

theorem Scan_second_scan_counterexample:
  "map fst (calls (fst (Scan (ex_poller ''/r'') 10 (Some ex_tree) ())))
     = [''/r'', ''/r/a'', ''/r/a/x.log'']
   \<and> map fst (calls (fst (Scan (plr (fst (Scan (ex_poller ''/r'') 10 (Some ex_tree) ()))) 20
                            (Some ex_tree) ())))
     = [''/r'', ''/r/a'']"
  by (simp add: ex_defs scanFn_unfold)

text \<open>
  C4 (as amended). After every scan, every path that has an entry in the table of
  modification times was visited as a directory during that scan, and every directory
  visited is a directory of the tree the scan saw; so the entry of a directory that
  was deleted before the scan is absent once the scan completes. Conversely, after a
  scan that is not the first, a visited directory has its entry, holding its
  modification time, when its metadata is read, its name is one the skip rule spares
  and the handler does not return \<open>ErrSkipDir\<close> for it.
\<close>

theorem Scan_dirModTime_only_visited:
  "dom (dirModTime (plr (fst (Scan p scanStart lstat h)))) \<subseteq> visitedDirs (fst (Scan p scanStart lstat h))
   \<and> visitedDirs (fst (Scan p scanStart lstat h))
        \<subseteq> (case lstat of None \<Rightarrow> {} | Some n \<Rightarrow> dir_paths (root p) n)
   \<and> (path \<notin> (case lstat of None \<Rightarrow> {} | Some n \<Rightarrow> dir_paths (root p) n) \<longrightarrow>
        dirModTime (plr (fst (Scan p scanStart lstat h))) path = None)
   \<and> (\<not> IsZero (lastScan p)
        \<and> (\<forall>info h e. fst (handler p q info h) = Some e \<longrightarrow> \<not> errors_Is_ErrSkipDir e)
        \<and> all_entries (\<lambda>path d. has_mtime q m path d \<and> spared (skipDirs p) q path d) (root p) T
        \<and> q \<in> visitedDirs (fst (Scan p scanStart (Some T) h))
      \<longrightarrow> dirModTime (plr (fst (Scan p scanStart (Some T) h))) q = Some m)"
proof -
  let ?w = "WalkDir (root p) lstat (scanFn (lastScan p)) (scan_init p scanStart h)"
  have S: "fst (Scan p scanStart lstat h) =
      (fst ?w)\<lparr>plr := cleanupDirModTime (plr (fst ?w)) (visitedDirs (fst ?w)),
        logged := logged (fst ?w) @ [ScanCompleted (fileCount (fst ?w)) (dirCount (fst ?w)) (skippedDirs (fst ?w))]\<rparr>"
    by (simp add: Scan_def Let_def split_beta)
  have A: "dom (dirModTime (plr (fst (Scan p scanStart lstat h)))) \<subseteq> visitedDirs (fst (Scan p scanStart lstat h))"
    by (simp add: S cleanupDirModTime_def)
  have V: "visitedDirs (fst (Scan p scanStart lstat h)) = visitedDirs (fst ?w)"
    by (simp add: S)
  have B: "visitedDirs (fst (Scan p scanStart lstat h))
        \<subseteq> (case lstat of None \<Rightarrow> {} | Some n \<Rightarrow> dir_paths (root p) n)"
    unfolding V
  proof (cases lstat)
    case None
    then show "visitedDirs (fst ?w) \<subseteq> (case lstat of None \<Rightarrow> {} | Some n \<Rightarrow> dir_paths (root p) n)"
      by (simp add: WalkDir_def split_beta scanFn_visitedDirs scan_init_def)
  next
    case (Some n)
    have "visitedDirs (fst (walkDir (scanFn (lastScan p)) (root p) n (scan_init p scanStart h)))
            \<subseteq> visitedDirs (scan_init p scanStart h) \<union> dir_paths (root p) n"
      by (rule walk_visitedDirs(1))
    then show "visitedDirs (fst ?w) \<subseteq> (case lstat of None \<Rightarrow> {} | Some n \<Rightarrow> dir_paths (root p) n)"
      using Some by (simp add: WalkDir_def split_beta scan_init_def)
  qed
  have C: "path \<notin> (case lstat of None \<Rightarrow> {} | Some n \<Rightarrow> dir_paths (root p) n) \<longrightarrow>
        dirModTime (plr (fst (Scan p scanStart lstat h))) path = None"
    using A B by (auto simp: dom_def subset_iff)
  have D: "dirModTime (plr (fst (Scan p scanStart (Some T) h))) q = Some m"
    if "\<not> IsZero (lastScan p)
        \<and> (\<forall>info h e. fst (handler p q info h) = Some e \<longrightarrow> \<not> errors_Is_ErrSkipDir e)
        \<and> all_entries (\<lambda>path d. has_mtime q m path d \<and> spared (skipDirs p) q path d) (root p) T
        \<and> q \<in> visitedDirs (fst (Scan p scanStart (Some T) h))"
    using that by (intro Scan_records_fingerprint) blast+
  show ?thesis using A B C D by blast
qed

theorem Scan_dirModTime_only_visited_witness:
  "''/r/b'' \<notin> dir_paths ''/r'' ex_tree
   \<and> dirModTime (plr (fst (Scan (ex_scanned\<lparr>dirModTime := [''/r/b'' \<mapsto> 5]\<rparr>)
         20 (Some ex_tree) ()))) ''/r/b'' = None
   \<and> ''/r/a'' \<in> visitedDirs (fst (Scan (ex_scanned\<lparr>dirModTime := [''/r/b'' \<mapsto> 5]\<rparr>)
         20 (Some ex_tree) ()))
   \<and> dirModTime (plr (fst (Scan (ex_scanned\<lparr>dirModTime := [''/r/b'' \<mapsto> 5]\<rparr>)
         20 (Some ex_tree) ()))) ''/r/a'' = Some 5"
  using Scan_dirModTime_only_visited[where p = "ex_scanned\<lparr>dirModTime := [''/r/b'' \<mapsto> 5]\<rparr>"
      and scanStart = 20 and lstat = "Some ex_tree" and h = "()" and path = "''/r/b''"
      and q = "''/r/a''" and m = 5 and T = ex_tree]
  by (simp add: ex_scanned_def ex_defs scanFn_unfold has_mtime_def spared_def)

text \<open>
  Without these conditions the converse fails: the first scan visits the root directory
  and leaves no entry for it in the table.
\<close>

theorem Scan_first_scan_no_fingerprint_counterexample:
  "''/r'' \<in> visitedDirs (fst (Scan (ex_poller ''/r'') 10 (Some ex_tree) ()))
   \<and> dirModTime (plr (fst (Scan (ex_poller ''/r'') 10 (Some ex_tree) ()))) ''/r'' = None"
  by (simp add: ex_defs scanFn_unfold)

lemmas ex_wdefs = ex_whandler_def ex_watcher_def NewWatcher_def

text \<open>
  C3 (as amended). In a scan, a directory that the walk reaches, whose metadata is read
  and whose name is in the poller's skip set or begins with a dot without being
  exactly \<^verbatim>\<open>.\<close>, is pruned once the handler has been invoked for it: nothing under it
  is visited and the poller, with its table of modification times, is left as it was,
  whatever the previous scan time and the table hold. A poller made by \<open>NewPoller\<close> has
  the five default names in its skip set. In the walk of \<open>AddRecursive\<close>, a directory
  with one of these five names, or with a dotted name other than \<^verbatim>\<open>.\<close>, gets no watch
  and nothing under it is walked. The root is treated like any other directory; the
  only name the dot rule spares is \<^verbatim>\<open>.\<close> itself, which a first scan descends into and
  \<open>AddRecursive\<close> watches.
\<close>

theorem skip_set_pruned:
  "(de_IsDir d \<and> de_Info d = Some info
      \<and> (de_Name d \<in> skipDirs (plr s) \<or> (HasPrefix (de_Name d) ''.'' \<and> de_Name d \<noteq> ''.'')) \<longrightarrow>
      snd (walkDir (scanFn ls) path (FsNode d dirs rderr) s) = None
      \<and> visited (fst (walkDir (scanFn ls) path (FsNode d dirs rderr) s)) = visited s @ [path]
      \<and> calls (fst (walkDir (scanFn ls) path (FsNode d dirs rderr) s)) = calls s @ [(path, info)]
      \<and> plr (fst (walkDir (scanFn ls) path (FsNode d dirs rderr) s)) = plr s)
   \<and> {''.git'', ''.dropbox.cache'', ''node_modules'', ''.svn'', ''.hg''}
        \<subseteq> skipDirs (the (NewPoller cfg (Some r)))
   \<and> (IsDir i
      \<and> (Name i \<in> {''.git'', ''.dropbox.cache'', ''node_modules'', ''.svn'', ''.hg''}
          \<or> (HasPrefix (Name i) ''.'' \<and> Name i \<noteq> ''.'')) \<longrightarrow>
      walked (fst (walk (addFn addable) path i (FsNode d' names rderr') w)) = walked w @ [path]
      \<and> watched (fst (walk (addFn addable) path i (FsNode d' names rderr') w)) = watched w)
   \<and> (de_IsDir d \<and> de_Info d = Some info \<and> de_Name d = ''.'' \<and> ''.'' \<notin> skipDirs (plr s)
      \<and> IsZero ls \<and> fst (handler (plr s) path info (hstate s)) = None \<longrightarrow>
      snd (scanFn ls path (WalkEntry d) s) = None)
   \<and> (IsDir i \<and> Name i = ''.'' \<and> addable path \<longrightarrow>
      snd (addFn addable path (Some i) None w) = None
      \<and> path \<in> watched (fst (addFn addable path (Some i) None w)))"
proof -
  let ?r = "scanFn ls path (WalkEntry d) s"
  have A: "snd (walkDir (scanFn ls) path (FsNode d dirs rderr) s) = None
      \<and> visited (fst (walkDir (scanFn ls) path (FsNode d dirs rderr) s)) = visited s @ [path]
      \<and> calls (fst (walkDir (scanFn ls) path (FsNode d dirs rderr) s)) = calls s @ [(path, info)]
      \<and> plr (fst (walkDir (scanFn ls) path (FsNode d dirs rderr) s)) = plr s"
    if a: "de_IsDir d \<and> de_Info d = Some info
      \<and> (de_Name d \<in> skipDirs (plr s) \<or> (HasPrefix (de_Name d) ''.'' \<and> de_Name d \<noteq> ''.''))"
  proof -
    have r: "snd ?r = Some SkipDir"
      using a by (simp add: scanFn_unfold split: prod.splits option.splits)
    have v: "visited (fst ?r) = visited s @ [path]"
      using a by (simp add: scanFn_unfold split: prod.splits option.splits)
    have k: "calls (fst ?r) = calls s @ [(path, info)]"
      using a by (simp add: scanFn_unfold split: prod.splits option.splits)
    have p: "plr (fst ?r) = plr s"
      using a by (simp add: scanFn_unfold split: prod.splits option.splits)
    have w: "walkDir (scanFn ls) path (FsNode d dirs rderr) s = (fst ?r, None)"
      using r a by (simp add: split_beta)
    show ?thesis using w v k p by simp
  qed
  have B: "{''.git'', ''.dropbox.cache'', ''node_modules'', ''.svn'', ''.hg''}
        \<subseteq> skipDirs (the (NewPoller cfg (Some r)))"
    by (simp add: NewPoller_def)
  have C: "walked (fst (walk (addFn addable) path i (FsNode d' names rderr') w)) = walked w @ [path]
      \<and> watched (fst (walk (addFn addable) path i (FsNode d' names rderr') w)) = watched w"
    if "IsDir i
      \<and> (Name i \<in> {''.git'', ''.dropbox.cache'', ''node_modules'', ''.svn'', ''.hg''}
          \<or> (HasPrefix (Name i) ''.'' \<and> Name i \<noteq> ''.''))"
    using that by (cases rderr') (auto simp: addFn_def Let_def)
  have D: "snd (scanFn ls path (WalkEntry d) s) = None"
    if "de_IsDir d \<and> de_Info d = Some info \<and> de_Name d = ''.'' \<and> ''.'' \<notin> skipDirs (plr s)
      \<and> IsZero ls \<and> fst (handler (plr s) path info (hstate s)) = None"
    using that by (auto simp: scanFn_unfold split: prod.splits option.splits)
  have E: "snd (addFn addable path (Some i) None w) = None
      \<and> path \<in> watched (fst (addFn addable path (Some i) None w))"
    if "IsDir i \<and> Name i = ''.'' \<and> addable path"
    using that by (simp add: addFn_def Let_def Watcher_Add_def)
  show ?thesis using A B C D E by blast
qed

theorem skip_set_pruned_witness:
  "visited (fst (walkDir (scanFn 0) ''/r/node_modules'' (ex_dir ''node_modules'' 5 [ex_file ''x.js'' 5])
       (scan_init (ex_poller ''/r'') 10 ()))) = [''/r/node_modules'']
   \<and> walked (fst (walk (addFn (\<lambda>p. True)) ''/r/node_modules'' (ex_info ''node_modules'' 5 True)
       (ex_dir ''node_modules'' 5 [ex_file ''x.js'' 5]) (ex_watcher 0 0))) = [''/r/node_modules'']
   \<and> watched (fst (walk (addFn (\<lambda>p. True)) ''/r/node_modules'' (ex_info ''node_modules'' 5 True)
       (ex_dir ''node_modules'' 5 [ex_file ''x.js'' 5]) (ex_watcher 0 0))) = {}
   \<and> ''.'' \<in> watched (fst (addFn (\<lambda>p. True) ''.'' (Some (ex_info ''.'' 5 True)) None (ex_watcher 0 0)))"
  using skip_set_pruned[where d = "DirEntry ''node_modules'' True (Some (ex_info ''node_modules'' 5 True))"
      and info = "ex_info ''node_modules'' 5 True" and s = "scan_init (ex_poller ''/r'') 10 ()"
      and ls = 0 and path = "''/r/node_modules''" and dirs = "[ex_file ''x.js'' 5]" and rderr = False
      and cfg = "\<lparr>Root = ''/r'', ScanInterval = 0, Handler = ex_handler, SkipDirs = []\<rparr>"
      and r = "''/r''" and i = "ex_info ''node_modules'' 5 True" and addable = "\<lambda>p. True"
      and d' = "DirEntry ''node_modules'' True (Some (ex_info ''node_modules'' 5 True))"
      and names = "[ex_file ''x.js'' 5]" and rderr' = False and w = "ex_watcher 0 0"]
    skip_set_pruned[where d = "DirEntry ''.'' True (Some (ex_info ''.'' 5 True))"
      and info = "ex_info ''.'' 5 True" and s = "scan_init (ex_poller ''.'') 10 ()"
      and ls = 0 and path = "''.''" and dirs = "[]" and rderr = False
      and cfg = "\<lparr>Root = ''.'', ScanInterval = 0, Handler = ex_handler, SkipDirs = []\<rparr>"
      and r = "''.''" and i = "ex_info ''.'' 5 True" and addable = "\<lambda>p. True"
      and d' = "DirEntry ''.'' True (Some (ex_info ''.'' 5 True))"
      and names = "[]" and rderr' = False and w = "ex_watcher 0 0"]
  by (simp add: ex_defs ex_wdefs scanFn_unfold addFn_def Watcher_Add_def)

text \<open>
  A root whose name begins with a dot is pruned by the rule: the scan visits the root
  \<^verbatim>\<open>/r/.cfg\<close> only, and \<open>AddRecursive\<close> neither watches it nor walks below it.
\<close>

theorem dotted_root_pruned_counterexample:
  "HasPrefix ''.cfg'' ''.''
   \<and> visited (fst (Scan (ex_poller ''/r/.cfg'') 10 (Some (ex_dir ''.cfg'' 5 [ex_file ''x'' 5])) ()))
       = [''/r/.cfg'']
   \<and> fst (AddRecursive (\<lambda>p. True) ''/r/.cfg'' (Some (ex_dir ''.cfg'' 5 [ex_file ''x'' 5])) (ex_watcher 0 0))
       = (ex_watcher 0 0)\<lparr>walked := [''/r/.cfg'']\<rparr>
   \<and> watched (ex_watcher 0 0) = {}"
  by (simp add: ex_defs ex_wdefs scanFn_unfold AddRecursive_def Walk_def addFn_def)

section \<open>The two loops\<close>

lemma Poller_loop_result:
  "snd (Poller_loop ins r) = Returned x \<longleftrightarrow>
     (\<exists>pre e post. ins = pre @ PollerCtxDone e # post \<and> (\<forall>i\<in>set pre. poller_tick i) \<and> x = Some e)"
proof (induction ins r rule: Poller_loop.induct)
  case (1 r)
  then show ?case by simp
next
  case (2 e ins r)
  show ?case
  proof
    assume "snd (Poller_loop (PollerCtxDone e # ins) r) = Returned x"
    then have "x = Some e" by simp
    then have "PollerCtxDone e # ins = [] @ PollerCtxDone e # ins \<and> (\<forall>i\<in>set []. poller_tick i) \<and> x = Some e"
      by simp
    then show "\<exists>pre e' post. PollerCtxDone e # ins = pre @ PollerCtxDone e' # post
        \<and> (\<forall>i\<in>set pre. poller_tick i) \<and> x = Some e'" by blast
  next
    assume "\<exists>pre e' post. PollerCtxDone e # ins = pre @ PollerCtxDone e' # post
        \<and> (\<forall>i\<in>set pre. poller_tick i) \<and> x = Some e'"
    then obtain pre e' post where d: "PollerCtxDone e # ins = pre @ PollerCtxDone e' # post"
      and t: "\<forall>i\<in>set pre. poller_tick i" and x: "x = Some e'" by blast
    have "pre = []" using d t by (cases pre) auto
    then show "snd (Poller_loop (PollerCtxDone e # ins) r) = Returned x" using d x by simp
  qed
next
  case (3 now lstat ins r)
  have "(\<exists>pre e post. PollerTick now lstat # ins = pre @ PollerCtxDone e # post
           \<and> (\<forall>i\<in>set pre. poller_tick i) \<and> x = Some e)
        \<longleftrightarrow> (\<exists>pre e post. ins = pre @ PollerCtxDone e # post
           \<and> (\<forall>i\<in>set pre. poller_tick i) \<and> x = Some e)"
  proof
    assume "\<exists>pre e post. PollerTick now lstat # ins = pre @ PollerCtxDone e # post
           \<and> (\<forall>i\<in>set pre. poller_tick i) \<and> x = Some e"
    then obtain pre e post where d: "PollerTick now lstat # ins = pre @ PollerCtxDone e # post"
      and t: "\<forall>i\<in>set pre. poller_tick i" and x: "x = Some e" by blast
    obtain pre' where p: "pre = PollerTick now lstat # pre'" using d by (cases pre) auto
    then have "ins = pre' @ PollerCtxDone e # post \<and> (\<forall>i\<in>set pre'. poller_tick i)" using d t by simp
    then show "\<exists>pre e post. ins = pre @ PollerCtxDone e # post
           \<and> (\<forall>i\<in>set pre. poller_tick i) \<and> x = Some e" using x by blast
  next
    assume "\<exists>pre e post. ins = pre @ PollerCtxDone e # post
           \<and> (\<forall>i\<in>set pre. poller_tick i) \<and> x = Some e"
    then obtain pre e post where d: "ins = pre @ PollerCtxDone e # post"
      and t: "\<forall>i\<in>set pre. poller_tick i" and x: "x = Some e" by blast
    have "PollerTick now lstat # ins = (PollerTick now lstat # pre) @ PollerCtxDone e # post
        \<and> (\<forall>i\<in>set (PollerTick now lstat # pre). poller_tick i)" using d t by simp
    then show "\<exists>pre e post. PollerTick now lstat # ins = pre @ PollerCtxDone e # post
           \<and> (\<forall>i\<in>set pre. poller_tick i) \<and> x = Some e" using x by blast
  qed
  then show ?case using 3 by simp
qed

lemma run_Scan_scans: "length (scans (run_Scan msg now lstat r)) = Suc (length (scans r))"
  by (simp add: run_Scan_def split_beta)

lemma Poller_loop_scans:
  "length (scans (fst (Poller_loop ins r))) = length (scans r) + length (takeWhile poller_tick ins)"
  by (induction ins r rule: Poller_loop.induct) (simp_all add: run_Scan_scans)

lemma Watcher_Run_result:
  "snd (Watcher_Run ins w) = Returned x \<longleftrightarrow>
     (\<exists>pre i post. ins = pre @ i # post \<and> (\<forall>j\<in>set pre. watcher_going j)
        \<and> ((\<exists>e. i = WCtxDone e \<and> x = Some e) \<or> ((i = WEventsClosed \<or> i = WErrorsClosed) \<and> x = None)))"
  (is "?L ins w \<longleftrightarrow> ?R ins")
proof (induction ins arbitrary: w)
  case Nil
  then show ?case by simp
next
  case (Cons a ins)
  show ?case
  proof (cases "watcher_going a")
    case True
    then obtain w' where step: "Watcher_Run (a # ins) w = Watcher_Run ins w'"
      by (cases a) auto
    have "?R (a # ins) \<longleftrightarrow> ?R ins"
    proof
      assume "?R (a # ins)"
      then obtain pre i post where d: "a # ins = pre @ i # post"
        and t: "\<forall>j\<in>set pre. watcher_going j"
        and x: "(\<exists>e. i = WCtxDone e \<and> x = Some e) \<or> ((i = WEventsClosed \<or> i = WErrorsClosed) \<and> x = None)"
        by blast
      have "pre \<noteq> []" using d x True by (cases pre) auto
      then obtain pre' where p: "pre = a # pre'" using d by (cases pre) auto
      then have "ins = pre' @ i # post \<and> (\<forall>j\<in>set pre'. watcher_going j)" using d t by simp
      then show "?R ins" using x by blast
    next
      assume "?R ins"
      then obtain pre i post where d: "ins = pre @ i # post"
        and t: "\<forall>j\<in>set pre. watcher_going j"
        and x: "(\<exists>e. i = WCtxDone e \<and> x = Some e) \<or> ((i = WEventsClosed \<or> i = WErrorsClosed) \<and> x = None)"
        by blast
      have "a # ins = (a # pre) @ i # post \<and> (\<forall>j\<in>set (a # pre). watcher_going j)"
        using d t True by simp
      then show "?R (a # ins)" using x by blast
    qed
    then show ?thesis using step Cons.IH[of w'] by simp
  next
    case False
    have L: "?L (a # ins) w \<longleftrightarrow> ((\<exists>e. a = WCtxDone e \<and> x = Some e) \<or> ((a = WEventsClosed \<or> a = WErrorsClosed) \<and> x = None))"
      using False by (cases a) auto
    have R: "?R (a # ins) \<longleftrightarrow> ((\<exists>e. a = WCtxDone e \<and> x = Some e) \<or> ((a = WEventsClosed \<or> a = WErrorsClosed) \<and> x = None))"
    proof
      assume "?R (a # ins)"
      then obtain pre i post where d: "a # ins = pre @ i # post"
        and t: "\<forall>j\<in>set pre. watcher_going j"
        and x: "(\<exists>e. i = WCtxDone e \<and> x = Some e) \<or> ((i = WEventsClosed \<or> i = WErrorsClosed) \<and> x = None)"
        by blast
      have "pre = []" using d t False by (cases pre) auto
      then have "i = a" using d by simp
      then show "(\<exists>e. a = WCtxDone e \<and> x = Some e) \<or> ((a = WEventsClosed \<or> a = WErrorsClosed) \<and> x = None)"
        using x by simp
    next
      assume x: "(\<exists>e. a = WCtxDone e \<and> x = Some e) \<or> ((a = WEventsClosed \<or> a = WErrorsClosed) \<and> x = None)"
      have "a # ins = [] @ a # ins \<and> (\<forall>j\<in>set []. watcher_going j)" by simp
      then show "?R (a # ins)" using x by blast
    qed
    show ?thesis using L R by simp
  qed
qed


lemma handleEvent_logged: "w_logged (handleEvent event now w) = w_logged w"
  by (simp add: handleEvent_def Let_def)

lemma fold_process_event_logged:
  "set (w_logged w) \<subseteq> set (w_logged (fold (process_event now) evs w))"
proof (induction evs arbitrary: w)
  case Nil
  then show ?case by simp
next
  case (Cons e evs)
  have "set (w_logged w) \<subseteq> set (w_logged (process_event now e w))"
    by (auto simp: process_event_def split_beta)
  then show ?case using Cons[of "process_event now e w"] by auto
qed

lemma flushPending_logged: "set (w_logged w) \<subseteq> set (w_logged (flushPending now w))"
  using fold_process_event_logged[of "w\<lparr>pending := filter (\<lambda>pe. \<not> settled (debounce w) now pe) (pending w)\<rparr>"]
  by (simp add: flushPending_def Let_def)

lemma Watcher_Run_logged: "set (w_logged w) \<subseteq> set (w_logged (fst (Watcher_Run ins w)))"
proof (induction ins w rule: Watcher_Run.induct)
  case (3 event now ins w)
  then show ?case by (simp add: handleEvent_logged)
next
  case (5 msg ins w)
  then show ?case by auto
next
  case (7 now ins w)
  then show ?case using flushPending_logged[of w now] by auto
qed simp_all

lemma Watcher_Run_logs_errors:
  "WError msg \<in> set (takeWhile watcher_going ins)
     \<Longrightarrow> WatchError msg \<in> set (w_logged (fst (Watcher_Run ins w)))"
proof (induction ins w rule: Watcher_Run.induct)
  case (5 m ins w)
  show ?case
  proof (cases "m = msg")
    case True
    then show ?thesis
      using Watcher_Run_logged[of "w\<lparr>w_logged := w_logged w @ [WatchError msg]\<rparr>" ins] by auto
  next
    case False
    then show ?thesis using 5 by simp
  qed
qed simp_all

text \<open>
  C8 (as amended). \<open>Poller_Run\<close> returns exactly when the context is done, and then it
  returns the error of the context; it runs one scan at once and one more for every
  tick before that, and no result of a scan is returned. \<open>Watcher_Run\<close> returns when the
  context is done, with the error of the context, or when the notification channel or
  the error channel of the notification source is closed, with nil. An error received
  from the notification source is logged and the loop goes on.
\<close>

theorem Run_returns_on_cancellation:
  "(snd (Poller_Run p h now0 lstat0 ins) = Returned x \<longleftrightarrow>
      (\<exists>pre e post. ins = pre @ PollerCtxDone e # post \<and> (\<forall>i\<in>set pre. poller_tick i) \<and> x = Some e))
   \<and> length (scans (fst (Poller_Run p h now0 lstat0 ins))) = 1 + length (takeWhile poller_tick ins)
   \<and> (snd (Watcher_Run wins w) = Returned y \<longleftrightarrow>
      (\<exists>pre i post. wins = pre @ i # post \<and> (\<forall>j\<in>set pre. watcher_going j)
         \<and> ((\<exists>e. i = WCtxDone e \<and> y = Some e)
              \<or> ((i = WEventsClosed \<or> i = WErrorsClosed) \<and> y = None))))
   \<and> (WError msg \<in> set (takeWhile watcher_going wins) \<longrightarrow>
        WatchError msg \<in> set (w_logged (fst (Watcher_Run wins w))))"
proof -
  have A: "snd (Poller_Run p h now0 lstat0 ins) = Returned x \<longleftrightarrow>
      (\<exists>pre e post. ins = pre @ PollerCtxDone e # post \<and> (\<forall>i\<in>set pre. poller_tick i) \<and> x = Some e)"
    unfolding Poller_Run_def by (rule Poller_loop_result)
  have B: "length (scans (fst (Poller_Run p h now0 lstat0 ins))) = 1 + length (takeWhile poller_tick ins)"
    unfolding Poller_Run_def by (simp add: Poller_loop_scans run_Scan_scans)
  show ?thesis using A B Watcher_Run_result[of wins w y] Watcher_Run_logs_errors[of msg wins w]
    by blast
qed

theorem Run_returns_on_cancellation_witness:
  "snd (Poller_Run (ex_poller ''/r'') () 10 (Some ex_tree)
          [PollerTick 20 (Some ex_tree), PollerCtxDone Canceled, PollerTick 30 None])
     = Returned (Some Canceled)
   \<and> length (scans (fst (Poller_Run (ex_poller ''/r'') () 10 (Some ex_tree)
          [PollerTick 20 (Some ex_tree), PollerCtxDone Canceled, PollerTick 30 None]))) = 2
   \<and> snd (Watcher_Run [WError ''overflow'', WCtxDone DeadlineExceeded] (ex_watcher 100 50))
     = Returned (Some DeadlineExceeded)
   \<and> WatchError ''overflow''
       \<in> set (w_logged (fst (Watcher_Run [WError ''overflow'', WCtxDone DeadlineExceeded] (ex_watcher 100 50))))"
  using Run_returns_on_cancellation[of "ex_poller ''/r''" "()" 10 "Some ex_tree"
      "[PollerTick 20 (Some ex_tree), PollerCtxDone Canceled, PollerTick 30 None]" "Some Canceled"
      "[WError ''overflow'', WCtxDone DeadlineExceeded]" "ex_watcher 100 50" "Some DeadlineExceeded"
      "''overflow''"]
  by (simp add: Poller_Run_def run_Scan_def split_beta)

text \<open>
  The watcher's loop also returns without any cancellation, and then with nil: when
  the notification channel is closed.
\<close>

theorem Watcher_Run_closed_channel_counterexample:
  "Watcher_Run [WEventsClosed] (ex_watcher 100 50) = (ex_watcher 100 50, Returned None)"
  by simp

section \<open>Debouncing: the pending buffer and the flush\<close>

lemma settled_iff:
  "0 < d \<Longrightarrow> d \<le> maxDuration \<Longrightarrow> settled d now (k, e) \<longleftrightarrow> Time e + d \<le> now"
  by (auto simp: settled_def time_Sub_def maxDuration_def minDuration_def)

lemma fold_process_event_fields:
  "pending (fold (process_event now) evs w) = pending w
   \<and> debounce (fold (process_event now) evs w) = debounce w
   \<and> flush (fold (process_event now) evs w) = flush w
   \<and> dispatched (fold (process_event now) evs w) = dispatched w @ map (Pair now) evs"
proof (induction evs arbitrary: w)
  case Nil
  then show ?case by simp
next
  case (Cons e evs)
  show ?case using Cons[of "process_event now e w"]
    by (simp add: process_event_def split_beta)
qed

lemma flushPending_pending:
  "pending (flushPending now w) = filter (\<lambda>pe. \<not> settled (debounce w) now pe) (pending w)"
  by (simp add: flushPending_def Let_def fold_process_event_fields)

lemma flushPending_fields:
  "debounce (flushPending now w) = debounce w"
  "flush (flushPending now w) = flush w"
  "dispatched (flushPending now w)
     = dispatched w @ map (Pair now) (map snd (filter (settled (debounce w) now) (pending w)))"
  by (simp_all add: flushPending_def Let_def fold_process_event_fields)

lemma handleEvent_fields:
  "debounce (handleEvent event now w) = debounce w"
  "flush (handleEvent event now w) = flush w"
  "dispatched (handleEvent event now w) = dispatched w"
  by (simp_all add: handleEvent_def Let_def)

lemma handleEvent_pending:
  "pending (handleEvent event now w) =
     (if fsn_Op event AND (Create OR Write OR Rename) = 0 then pending w
      else AList.update (fsn_Name event)
             \<lparr>Path = fsn_Name event, Op = fsn_Op event, Time = now\<rparr> (pending w))"
  by (simp add: handleEvent_def Let_def)

lemma set_update_cases:
  "x \<in> set (AList.update k v al) \<Longrightarrow> x = (k, v) \<or> x \<in> set al"
  by (induction al) (auto split: if_splits)

lemma set_update_distinct:
  "distinct (map fst al) \<Longrightarrow> x \<in> set (AList.update k v al)
     \<Longrightarrow> x = (k, v) \<or> (x \<in> set al \<and> fst x \<noteq> k)"
  by (induction al) (auto split: if_splits)

lemma keyed_update: "keyed al \<Longrightarrow> Path v = k \<Longrightarrow> keyed (AList.update k v al)"
  unfolding keyed_def using set_update_cases by fastforce

lemma map_of_filter_distinct:
  "distinct (map fst al) \<Longrightarrow>
     map_of (filter P al) k = (case map_of al k of None \<Rightarrow> None
                               | Some v \<Rightarrow> if P (k, v) then Some v else None)"
proof (induction al)
  case Nil
  then show ?case by simp
next
  case (Cons a al)
  obtain k' v' where a: "a = (k', v')" by (cases a)
  have notin: "map_of al k' = None" using Cons.prems a
    by (simp add: map_of_eq_None_iff)
  show ?case using Cons a notin by (auto split: option.splits)
qed

lemma dispatch_filter:
  "distinct (map fst al) \<Longrightarrow> keyed al \<Longrightarrow>
     filter (\<lambda>te. Path (snd te) = p) (map (Pair now) (map snd (filter S al)))
       = (case map_of al p of None \<Rightarrow> []
          | Some e \<Rightarrow> if S (p, e) then [(now, e)] else [])"
proof (induction al)
  case Nil
  then show ?case by simp
next
  case (Cons a al)
  obtain k' v' where a: "a = (k', v')" by (cases a)
  have kv: "Path v' = k'" using Cons.prems(2) a by (simp add: keyed_def)
  have ih: "filter (\<lambda>te. Path (snd te) = p) (map (Pair now) (map snd (filter S al)))
       = (case map_of al p of None \<Rightarrow> [] | Some e \<Rightarrow> if S (p, e) then [(now, e)] else [])"
    using Cons by (simp add: keyed_def)
  have notin: "map_of al k' = None" using Cons.prems(1) a
    by (simp add: map_of_eq_None_iff)
  show ?case using a kv ih notin by (auto split: option.splits)
qed

lemma handleEvent_wf: "wf_pending w \<Longrightarrow> wf_pending (handleEvent event now w)"
  by (simp add: wf_pending_def handleEvent_pending distinct_update keyed_update)

lemma flushPending_wf: "wf_pending w \<Longrightarrow> wf_pending (flushPending now w)"
  by (auto simp: wf_pending_def flushPending_pending distinct_map_filter keyed_def)

lemma handleEvent_slot:
  "map_of (pending (handleEvent event now w)) p =
     (if fsn_Op event AND (Create OR Write OR Rename) \<noteq> 0 \<and> fsn_Name event = p
      then Some \<lparr>Path = fsn_Name event, Op = fsn_Op event, Time = now\<rparr>
      else map_of (pending w) p)"
  by (simp add: handleEvent_pending update_conv')

lemma handleEvent_dispatched_for:
  "dispatched_for p (handleEvent event now w) = dispatched_for p w"
  by (simp add: dispatched_for_def handleEvent_fields)

lemma flushPending_slot:
  "wf_pending w \<Longrightarrow>
     map_of (pending (flushPending now w)) p =
       (case map_of (pending w) p of None \<Rightarrow> None
        | Some e \<Rightarrow> if settled (debounce w) now (p, e) then None else Some e)"
  by (simp add: wf_pending_def flushPending_pending map_of_filter_distinct split: option.splits)

lemma flushPending_dispatched_for:
  "wf_pending w \<Longrightarrow>
     dispatched_for p (flushPending now w) =
       dispatched_for p w @
         (case map_of (pending w) p of None \<Rightarrow> []
          | Some e \<Rightarrow> if settled (debounce w) now (p, e) then [(now, e)] else [])"
  by (simp add: wf_pending_def dispatched_for_def flushPending_fields dispatch_filter del: map_map)

lemma logged_dispatched_for:
  "dispatched_for p (w\<lparr>w_logged := l\<rparr>) = dispatched_for p w"
  by (simp add: dispatched_for_def)

lemma logged_wf: "wf_pending (w\<lparr>w_logged := l\<rparr>) = wf_pending w"
  by (simp add: wf_pending_def)

lemma notif_times_subset: "set (notif_times p ins) \<subseteq> set (clock_readings ins)"
  by (induction ins rule: clock_readings.induct) auto

lemma quiet_phase:
  "wf_pending w \<Longrightarrow> map_of (pending w) p = None \<Longrightarrow> notif_times p ins = [] \<Longrightarrow>
     dispatched_for p (fst (Watcher_Run ins w)) = dispatched_for p w"
proof (induction ins w rule: Watcher_Run.induct)
  case (3 event now ins w)
  let ?w = "handleEvent event now w"
  have n: "\<not> (fsn_Name event = p \<and> fsn_Op event AND (Create OR Write OR Rename) \<noteq> 0)"
    and e: "notif_times p ins = []"
    using "3.prems"(3) by (auto split: if_splits)
  have slot: "map_of (pending ?w) p = None"
    using n "3.prems"(2) by (auto simp: handleEvent_slot)
  have "dispatched_for p (fst (Watcher_Run ins ?w)) = dispatched_for p ?w"
    using handleEvent_wf[OF "3.prems"(1)] slot e by (rule "3.IH")
  then show ?case by (simp add: handleEvent_dispatched_for)
next
  case (5 msg ins w)
  then show ?case by (simp add: logged_dispatched_for logged_wf)
next
  case (7 now ins w)
  have "dispatched_for p (fst (Watcher_Run ins (flushPending now w)))
          = dispatched_for p (flushPending now w)"
    using "7.prems" by (intro "7.IH") (simp_all add: flushPending_wf flushPending_slot)
  then show ?case using "7.prems" by (simp add: flushPending_dispatched_for)
qed simp_all

lemma drain_phase:
  "wf_pending w \<Longrightarrow> 0 < debounce w \<Longrightarrow> debounce w \<le> maxDuration \<Longrightarrow>
   map_of (pending w) p = Some e0 \<Longrightarrow> notif_times p ins = [] \<Longrightarrow>
   \<forall>i\<in>set ins. watcher_going i \<Longrightarrow>
     dispatched_for p (fst (Watcher_Run ins w)) =
       dispatched_for p w @
         (case find (\<lambda>t. Time e0 + debounce w \<le> t) (tick_times ins) of
            None \<Rightarrow> [] | Some t \<Rightarrow> [(t, e0)])"
proof (induction ins w rule: Watcher_Run.induct)
  case (3 event now ins w)
  let ?w = "handleEvent event now w"
  have n: "\<not> (fsn_Name event = p \<and> fsn_Op event AND (Create OR Write OR Rename) \<noteq> 0)"
    and e: "notif_times p ins = []"
    using "3.prems"(5) by (auto split: if_splits)
  have slot: "map_of (pending ?w) p = Some e0"
    using n "3.prems"(4) by (auto simp: handleEvent_slot)
  have going: "\<forall>i\<in>set ins. watcher_going i" using "3.prems"(6) by simp
  have "dispatched_for p (fst (Watcher_Run ins ?w))
          = dispatched_for p ?w @
              (case find (\<lambda>t. Time e0 + debounce ?w \<le> t) (tick_times ins) of
                 None \<Rightarrow> [] | Some t \<Rightarrow> [(t, e0)])"
    using handleEvent_wf[OF "3.prems"(1)] "3.prems"(2,3) slot e going
    by (intro "3.IH") (simp_all add: handleEvent_fields)
  then show ?case by (simp add: handleEvent_dispatched_for handleEvent_fields)
next
  case (5 msg ins w)
  then show ?case by (simp add: logged_dispatched_for logged_wf)
next
  case (7 now ins w)
  have st: "settled (debounce w) now (p, e0) \<longleftrightarrow> Time e0 + debounce w \<le> now"
    using "7.prems" by (simp add: settled_iff)
  show ?case
  proof (cases "Time e0 + debounce w \<le> now")
    case True
    have "dispatched_for p (fst (Watcher_Run ins (flushPending now w)))
            = dispatched_for p (flushPending now w)"
      using "7.prems" True st
      by (intro quiet_phase) (simp_all add: flushPending_wf flushPending_slot)
    then show ?thesis using "7.prems" True st by (simp add: flushPending_dispatched_for)
  next
    case False
    have "dispatched_for p (fst (Watcher_Run ins (flushPending now w)))
            = dispatched_for p (flushPending now w) @
                (case find (\<lambda>t. Time e0 + debounce (flushPending now w) \<le> t) (tick_times ins) of
                   None \<Rightarrow> [] | Some t \<Rightarrow> [(t, e0)])"
      using "7.prems" False st
      by (intro "7.IH") (simp_all add: flushPending_wf flushPending_slot flushPending_fields)
    then show ?thesis using "7.prems" False st
      by (simp add: flushPending_dispatched_for flushPending_fields)
  qed
qed simp_all


lemma burst_phase:
  "wf_pending w \<Longrightarrow> 0 < debounce w \<Longrightarrow> debounce w \<le> maxDuration \<Longrightarrow>
   \<forall>i\<in>set ins. watcher_going i \<Longrightarrow>
   sorted (clock_readings ins) \<Longrightarrow> notif_times p ins \<noteq> [] \<Longrightarrow>
   \<forall>t\<in>set (notif_times p ins). tf \<le> t \<and> t < tf + debounce w \<Longrightarrow>
   map_of (pending w) p = None \<or> (\<exists>e0. map_of (pending w) p = Some e0 \<and> tf \<le> Time e0) \<Longrightarrow>
     \<exists>e. Path e = p \<and> Time e = last (notif_times p ins)
       \<and> dispatched_for p (fst (Watcher_Run ins w)) =
           dispatched_for p w @
             (case find (\<lambda>t. last (notif_times p ins) + debounce w \<le> t) (tick_times ins) of
                None \<Rightarrow> [] | Some t \<Rightarrow> [(t, e)])"
proof (induction ins w rule: Watcher_Run.induct)
  case (3 event now ins w)
  let ?w = "handleEvent event now w"
  have wf: "wf_pending ?w" using "3.prems"(1) by (rule handleEvent_wf)
  have d: "debounce ?w = debounce w" by (simp add: handleEvent_fields)
  have going: "\<forall>i\<in>set ins. watcher_going i" using "3.prems"(4) by simp
  have srt: "sorted (clock_readings ins)" using "3.prems"(5) by simp
  show ?case
  proof (cases "fsn_Name event = p \<and> fsn_Op event AND (Create OR Write OR Rename) \<noteq> 0")
    case True
    note mine = True
    let ?e = "\<lparr>Path = fsn_Name event, Op = fsn_Op event, Time = now\<rparr>"
    have slot: "map_of (pending ?w) p = Some ?e"
      using mine by (simp add: handleEvent_slot)
    have now: "tf \<le> now" using "3.prems"(7) mine by simp
    show ?thesis
    proof (cases "notif_times p ins = []")
      case True
      note empty = True
      have "dispatched_for p (fst (Watcher_Run ins ?w)) =
              dispatched_for p ?w @
                (case find (\<lambda>t. Time ?e + debounce ?w \<le> t) (tick_times ins) of
                   None \<Rightarrow> [] | Some t \<Rightarrow> [(t, ?e)])"
        using wf "3.prems"(2,3) d slot empty going by (intro drain_phase) simp_all
      then have "Path ?e = p \<and> Time ?e = last (notif_times p (WEvent event now # ins))
          \<and> dispatched_for p (fst (Watcher_Run (WEvent event now # ins) w)) =
              dispatched_for p w @
                (case find (\<lambda>t. last (notif_times p (WEvent event now # ins)) + debounce w \<le> t)
                        (tick_times (WEvent event now # ins)) of
                   None \<Rightarrow> [] | Some t \<Rightarrow> [(t, ?e)])"
        using mine empty d by (simp add: handleEvent_dispatched_for)
      then show ?thesis by blast
    next
      case False
      have "\<exists>e. Path e = p \<and> Time e = last (notif_times p ins)
          \<and> dispatched_for p (fst (Watcher_Run ins ?w)) =
              dispatched_for p ?w @
                (case find (\<lambda>t. last (notif_times p ins) + debounce ?w \<le> t) (tick_times ins) of
                   None \<Rightarrow> [] | Some t \<Rightarrow> [(t, e)])"
        using wf "3.prems"(2,3,7) d going srt False slot now mine
        by (intro "3.IH") simp_all
      then show ?thesis using mine False d
        by (simp add: handleEvent_dispatched_for)
    qed
  next
    case False
    have slot: "map_of (pending ?w) p = map_of (pending w) p"
      using False by (auto simp: handleEvent_slot)
    have same: "notif_times p (WEvent event now # ins) = notif_times p ins"
      using False by auto
    have "\<exists>e. Path e = p \<and> Time e = last (notif_times p ins)
        \<and> dispatched_for p (fst (Watcher_Run ins ?w)) =
            dispatched_for p ?w @
              (case find (\<lambda>t. last (notif_times p ins) + debounce ?w \<le> t) (tick_times ins) of
                 None \<Rightarrow> [] | Some t \<Rightarrow> [(t, e)])"
      using wf "3.prems"(2,3,6,7,8) d going srt same slot
      by (intro "3.IH") simp_all
    then show ?thesis using same d by (simp add: handleEvent_dispatched_for)
  qed
next
  case (5 msg ins w)
  let ?w = "w\<lparr>w_logged := w_logged w @ [WatchError msg]\<rparr>"
  have "\<exists>e. Path e = p \<and> Time e = last (notif_times p ins)
      \<and> dispatched_for p (fst (Watcher_Run ins ?w)) =
          dispatched_for p ?w @
            (case find (\<lambda>t. last (notif_times p ins) + debounce ?w \<le> t) (tick_times ins) of
               None \<Rightarrow> [] | Some t \<Rightarrow> [(t, e)])"
    using "5.prems" by (intro "5.IH") (simp_all add: logged_wf)
  then show ?case by (simp add: logged_dispatched_for)
next
  case (7 now ins w)
  let ?w = "flushPending now w"
  let ?ts = "notif_times p ins"
  have wf: "wf_pending ?w" using "7.prems"(1) by (rule flushPending_wf)
  have d: "debounce ?w = debounce w" by (simp add: flushPending_fields)
  have ne: "?ts \<noteq> []" using "7.prems"(6) by simp
  have le: "\<forall>t\<in>set (clock_readings ins). now \<le> t" using "7.prems"(5) by simp
  have lastin: "last ?ts \<in> set ?ts" using ne by simp
  then have "last ?ts \<in> set (clock_readings ins)" using notif_times_subset by blast
  then have nl: "now \<le> last ?ts" using le by blast
  have lt: "last ?ts < tf + debounce w" using "7.prems"(7) lastin by simp
  have notyet: "\<not> (last ?ts + debounce w \<le> now)" using nl "7.prems"(2) by simp
  have keep: "map_of (pending ?w) p = map_of (pending w) p
      \<and> dispatched_for p ?w = dispatched_for p w"
  proof (cases "map_of (pending w) p")
    case None
    then show ?thesis using "7.prems"(1)
      by (simp add: flushPending_slot flushPending_dispatched_for)
  next
    case (Some e0)
    then have "tf \<le> Time e0" using "7.prems"(8) by simp
    then have "\<not> (Time e0 + debounce w \<le> now)" using nl lt by simp
    then have "\<not> settled (debounce w) now (p, e0)"
      using "7.prems"(2,3) by (simp add: settled_iff)
    then show ?thesis using Some "7.prems"(1)
      by (simp add: flushPending_slot flushPending_dispatched_for)
  qed
  have "\<exists>e. Path e = p \<and> Time e = last ?ts
      \<and> dispatched_for p (fst (Watcher_Run ins ?w)) =
          dispatched_for p ?w @
            (case find (\<lambda>t. last ?ts + debounce ?w \<le> t) (tick_times ins) of
               None \<Rightarrow> [] | Some t \<Rightarrow> [(t, e)])"
    using wf "7.prems"(2,3,4,5,7,8) d ne keep
    by (intro "7.IH") simp_all
  then show ?case using keep d notyet by simp
qed simp_all

lemma sorted_notif_times: "sorted (clock_readings ins) \<Longrightarrow> sorted (notif_times p ins)"
proof (induction ins rule: clock_readings.induct)
  case (3 event now ins)
  then show ?case using notif_times_subset[of p ins] by auto
qed simp_all

lemma sorted_between:
  fixes xs :: "int list"
  shows "sorted xs \<Longrightarrow> x \<in> set xs \<Longrightarrow> hd xs \<le> x \<and> x \<le> last xs"
proof (induction xs)
  case Nil
  then show ?case by simp
next
  case (Cons a xs)
  show ?case
  proof (cases "xs = []")
    case True
    then show ?thesis using Cons.prems by simp
  next
    case False
    then have "last xs \<in> set xs" by simp
    then show ?thesis using Cons False by auto
  qed
qed

lemma Watcher_Run_distinct:
  "distinct (map fst (pending w)) \<Longrightarrow> distinct (map fst (pending (fst (Watcher_Run ins w))))"
proof (induction ins w rule: Watcher_Run.induct)
  case (3 event now ins w)
  then show ?case by (simp add: handleEvent_pending distinct_update)
next
  case (7 now ins w)
  then show ?case by (simp add: flushPending_pending distinct_map_filter)
qed simp_all

lemma handled_append: "handled H (xs @ ys) h = handled H ys (handled H xs h)"
  by (simp add: handled_def)

lemma fold_process_event_handler:
  "w_handler (fold (process_event now) evs w) = w_handler w
   \<and> w_hstate (fold (process_event now) evs w) = handled (w_handler w) evs (w_hstate w)"
proof (induction evs arbitrary: w)
  case Nil
  then show ?case by (simp add: handled_def)
next
  case (Cons e evs)
  show ?case using Cons[of "process_event now e w"]
    by (simp add: process_event_def split_beta handled_def)
qed

lemma map_snd_Pair: "map snd (map (Pair now) xs) = xs"
  by (induction xs) simp_all

lemma flushPending_handler:
  "w_handler (flushPending now w) = w_handler w"
  "w_hstate (flushPending now w)
     = handled (w_handler w) (map snd (filter (settled (debounce w) now) (pending w))) (w_hstate w)"
  by (simp_all add: flushPending_def Let_def fold_process_event_handler)

lemma handleEvent_handler:
  "w_handler (handleEvent event now w) = w_handler w"
  "w_hstate (handleEvent event now w) = w_hstate w"
  by (simp_all add: handleEvent_def Let_def)

lemma Watcher_Run_handler:
  "w_hstate w = handled (w_handler w) (map snd (dispatched w)) h0 \<Longrightarrow>
   w_handler (fst (Watcher_Run ins w)) = w_handler w
   \<and> w_hstate (fst (Watcher_Run ins w))
       = handled (w_handler w) (map snd (dispatched (fst (Watcher_Run ins w)))) h0"
proof (induction ins w rule: Watcher_Run.induct)
  case (3 event now ins w)
  let ?w = "handleEvent event now w"
  have "w_hstate ?w = handled (w_handler ?w) (map snd (dispatched ?w)) h0"
    using "3.prems" by (simp add: handleEvent_handler handleEvent_fields)
  then show ?case using "3.IH" by (simp add: handleEvent_handler)
next
  case (5 msg ins w)
  let ?w = "w\<lparr>w_logged := w_logged w @ [WatchError msg]\<rparr>"
  have "w_hstate ?w = handled (w_handler ?w) (map snd (dispatched ?w)) h0"
    using "5.prems" by simp
  then show ?case using "5.IH" by simp
next
  case (7 now ins w)
  let ?w = "flushPending now w"
  have "w_hstate ?w = handled (w_handler ?w) (map snd (dispatched ?w)) h0"
    using "7.prems"
    by (simp add: flushPending_handler flushPending_fields handled_append map_snd_Pair
          del: map_map)
  then show ?case using "7.IH" by (simp add: flushPending_handler)
qed simp_all

lemma dispatched_for_events:
  "filter (\<lambda>e. Path e = p) (map snd (dispatched w)) = map snd (dispatched_for p w)"
  by (simp add: dispatched_for_def filter_map comp_def)

lemmas op_defs = Create_def Write_def Rename_def Remove_def Chmod_def

text \<open>
  C1. Take a watcher as \<open>NewWatcher\<close> makes it (nothing pending, nothing dispatched, a
  positive debounce duration within the range of a duration) and a sequence of inputs
  that keeps the loop running, with a clock that does not go back. If it holds at least
  one notification of kind Create, Write or Rename for a path \<open>p\<close>, the last of them
  comes less than the debounce duration after the first, and \<open>tick\<close> is the first flush
  tick at least the debounce duration after the last, then exactly one event reaches
  the handler for \<open>p\<close>: the handler ends in the state that invoking it on the
  dispatched events, in turn and on nothing else, gives, and exactly one of these
  events is for \<open>p\<close>, dispatched at \<open>tick\<close> and carrying the time of the last of the
  notifications. A notification of any other kind leaves the watcher, and so the
  pending buffer, as it was. And the paths of the pending buffer stay distinct whatever
  the inputs are.
\<close>

theorem debounce_coalesces:
  "(pending w = [] \<and> dispatched w = [] \<and> 0 < debounce w \<and> debounce w \<le> maxDuration
      \<and> (\<forall>i\<in>set ins. watcher_going i)
      \<and> sorted (clock_readings ins)
      \<and> notif_times p ins \<noteq> []
      \<and> last (notif_times p ins) - hd (notif_times p ins) < debounce w
      \<and> find (\<lambda>t. last (notif_times p ins) + debounce w \<le> t) (tick_times ins) = Some tick
    \<longrightarrow> (\<exists>e. Path e = p \<and> Time e = last (notif_times p ins)
           \<and> dispatched_for p (fst (Watcher_Run ins w)) = [(tick, e)]
           \<and> filter (\<lambda>e. Path e = p) (map snd (dispatched (fst (Watcher_Run ins w)))) = [e]
           \<and> w_hstate (fst (Watcher_Run ins w))
               = handled (w_handler w) (map snd (dispatched (fst (Watcher_Run ins w)))) (w_hstate w)))
   \<and> (fsn_Op event AND (Create OR Write OR Rename) = 0 \<longrightarrow> handleEvent event now w' = w')
   \<and> (distinct (map fst (pending w0)) \<longrightarrow>
        distinct (map fst (pending (fst (Watcher_Run ins0 w0)))))"
proof (intro conjI impI)
  assume a: "pending w = [] \<and> dispatched w = [] \<and> 0 < debounce w \<and> debounce w \<le> maxDuration
      \<and> (\<forall>i\<in>set ins. watcher_going i)
      \<and> sorted (clock_readings ins)
      \<and> notif_times p ins \<noteq> []
      \<and> last (notif_times p ins) - hd (notif_times p ins) < debounce w
      \<and> find (\<lambda>t. last (notif_times p ins) + debounce w \<le> t) (tick_times ins) = Some tick"
  let ?ts = "notif_times p ins"
  let ?w = "fst (Watcher_Run ins w)"
  have wf: "wf_pending w" using a by (simp add: wf_pending_def keyed_def)
  have srt: "sorted ?ts" using a sorted_notif_times by blast
  have win: "\<forall>t\<in>set ?ts. hd ?ts \<le> t \<and> t < hd ?ts + debounce w"
  proof
    fix t assume "t \<in> set ?ts"
    then have "hd ?ts \<le> t \<and> t \<le> last ?ts" using srt sorted_between by blast
    then show "hd ?ts \<le> t \<and> t < hd ?ts + debounce w" using a by linarith
  qed
  have slot: "map_of (pending w) p = None \<or> (\<exists>e0. map_of (pending w) p = Some e0 \<and> hd ?ts \<le> Time e0)"
    using a by simp
  have "\<exists>e. Path e = p \<and> Time e = last ?ts
       \<and> dispatched_for p ?w =
           dispatched_for p w @
             (case find (\<lambda>t. last ?ts + debounce w \<le> t) (tick_times ins) of
                None \<Rightarrow> [] | Some t \<Rightarrow> [(t, e)])"
    using wf a win slot by (intro burst_phase) blast+
  then obtain e where e: "Path e = p" "Time e = last ?ts" "dispatched_for p ?w = [(tick, e)]"
    using a by (auto simp: dispatched_for_def)
  have one: "filter (\<lambda>e. Path e = p) (map snd (dispatched ?w)) = [e]"
    using e(3) by (simp add: dispatched_for_events)
  have "w_hstate w = handled (w_handler w) (map snd (dispatched w)) (w_hstate w)"
    using a by (simp add: handled_def)
  then have calls: "w_hstate ?w = handled (w_handler w) (map snd (dispatched ?w)) (w_hstate w)"
    using Watcher_Run_handler[of w "w_hstate w" ins] by simp
  show "\<exists>e. Path e = p \<and> Time e = last ?ts
           \<and> dispatched_for p ?w = [(tick, e)]
           \<and> filter (\<lambda>e. Path e = p) (map snd (dispatched ?w)) = [e]
           \<and> w_hstate ?w = handled (w_handler w) (map snd (dispatched ?w)) (w_hstate w)"
    using e one calls by blast
next
  assume "fsn_Op event AND (Create OR Write OR Rename) = 0"
  then show "handleEvent event now w' = w'" by (simp add: handleEvent_def)
next
  assume "distinct (map fst (pending w0))"
  then show "distinct (map fst (pending (fst (Watcher_Run ins0 w0))))"
    by (rule Watcher_Run_distinct)
qed

theorem debounce_coalesces_witness:
  "dispatched_for ''/r/f''
     (fst (Watcher_Run
        [WEvent \<lparr>fsn_Name = ''/r/f'', fsn_Op = Create\<rparr> 0,
         WEvent \<lparr>fsn_Name = ''/r/f'', fsn_Op = Write\<rparr> 10,
         WEvent \<lparr>fsn_Name = ''/r/g'', fsn_Op = Write\<rparr> 15,
         WEvent \<lparr>fsn_Name = ''/r/f'', fsn_Op = Write\<rparr> 20,
         WFlushTick 50, WFlushTick 100, WFlushTick 150, WFlushTick 200]
        (ex_recording_watcher 100 50)))
     = [(150, \<lparr>Path = ''/r/f'', Op = Write, Time = 20\<rparr>)]
   \<and> w_hstate
     (fst (Watcher_Run
        [WEvent \<lparr>fsn_Name = ''/r/f'', fsn_Op = Create\<rparr> 0,
         WEvent \<lparr>fsn_Name = ''/r/f'', fsn_Op = Write\<rparr> 10,
         WEvent \<lparr>fsn_Name = ''/r/g'', fsn_Op = Write\<rparr> 15,
         WEvent \<lparr>fsn_Name = ''/r/f'', fsn_Op = Write\<rparr> 20,
         WFlushTick 50, WFlushTick 100, WFlushTick 150, WFlushTick 200]
        (ex_recording_watcher 100 50)))
     = [\<lparr>Path = ''/r/f'', Op = Write, Time = 20\<rparr>, \<lparr>Path = ''/r/g'', Op = Write, Time = 15\<rparr>]
   \<and> handleEvent \<lparr>fsn_Name = ''/r/f'', fsn_Op = Chmod\<rparr> 5 (ex_recording_watcher 100 50)
       = ex_recording_watcher 100 50"
  using debounce_coalesces[where w = "ex_recording_watcher 100 50" and p = "''/r/f''" and tick = 150
      and ins = "[WEvent \<lparr>fsn_Name = ''/r/f'', fsn_Op = Create\<rparr> 0,
         WEvent \<lparr>fsn_Name = ''/r/f'', fsn_Op = Write\<rparr> 10,
         WEvent \<lparr>fsn_Name = ''/r/g'', fsn_Op = Write\<rparr> 15,
         WEvent \<lparr>fsn_Name = ''/r/f'', fsn_Op = Write\<rparr> 20,
         WFlushTick 50, WFlushTick 100, WFlushTick 150, WFlushTick 200]"
      and event = "\<lparr>fsn_Name = ''/r/f'', fsn_Op = Chmod\<rparr>" and now = 5
      and w' = "ex_recording_watcher 100 50"
      and ?w0.0 = "ex_recording_watcher 100 50" and ?ins0.0 = "[]"]
  by (simp add: ex_recording_watcher_def ex_recorder_def NewWatcher_def op_defs maxDuration_def
      handleEvent_def flushPending_def settled_def time_Sub_def minDuration_def process_event_def
      dispatched_for_def Let_def)

lemma unsettled_age:
  "0 < d \<Longrightarrow> d \<le> maxDuration \<Longrightarrow> \<not> settled d now ke \<Longrightarrow> now - Time (snd ke) < d"
  using settled_iff[of d now "fst ke" "snd ke"] by simp

lemma settled_age:
  "0 < d \<Longrightarrow> d \<le> maxDuration \<Longrightarrow> settled d now ke \<Longrightarrow> d \<le> now - Time (snd ke)"
  using settled_iff[of d now "fst ke" "snd ke"] by simp

lemma timing_bounds:
  "0 < debounce w \<Longrightarrow> debounce w \<le> maxDuration \<Longrightarrow>
   \<forall>ke\<in>set (pending w). prev - Time (snd ke) < debounce w \<Longrightarrow>
   sorted (prev # clock_readings ins) \<Longrightarrow> tick_gaps_ok (flush w) prev ins \<Longrightarrow>
   \<forall>te\<in>set (dispatched w). debounce w \<le> fst te - Time (snd te)
        \<and> fst te - Time (snd te) < debounce w + flush w \<Longrightarrow>
   \<forall>te\<in>set (dispatched (fst (Watcher_Run ins w))). debounce w \<le> fst te - Time (snd te)
        \<and> fst te - Time (snd te) < debounce w + flush w"
proof (induction ins w arbitrary: prev rule: Watcher_Run.induct)
  case (3 event now ins w)
  let ?w = "handleEvent event now w"
  have pn: "prev \<le> now" using "3.prems"(4) by simp
  have inv: "\<forall>ke\<in>set (pending ?w). prev - Time (snd ke) < debounce ?w"
  proof
    fix ke assume "ke \<in> set (pending ?w)"
    then have "ke = (fsn_Name event, \<lparr>Path = fsn_Name event, Op = fsn_Op event, Time = now\<rparr>)
        \<or> ke \<in> set (pending w)"
      using set_update_cases by (fastforce simp: handleEvent_pending split: if_splits)
    then show "prev - Time (snd ke) < debounce ?w"
      using "3.prems"(1,3) pn by (auto simp: handleEvent_fields)
  qed
  have srt: "sorted (prev # clock_readings ins)" using "3.prems"(4) by auto
  have "\<forall>te\<in>set (dispatched (fst (Watcher_Run ins ?w))). debounce ?w \<le> fst te - Time (snd te)
        \<and> fst te - Time (snd te) < debounce ?w + flush ?w"
    using "3.prems"(1,2,5,6) inv srt
    by (intro "3.IH"[of prev]) (simp_all add: handleEvent_fields)
  then show ?case by (simp add: handleEvent_fields)
next
  case (5 msg ins w)
  let ?w = "w\<lparr>w_logged := w_logged w @ [WatchError msg]\<rparr>"
  have "\<forall>te\<in>set (dispatched (fst (Watcher_Run ins ?w))). debounce ?w \<le> fst te - Time (snd te)
        \<and> fst te - Time (snd te) < debounce ?w + flush ?w"
    using "5.prems" by (intro "5.IH"[of prev]) simp_all
  then show ?case by simp
next
  case (7 now ins w)
  let ?w = "flushPending now w"
  have gap: "now - prev \<le> flush w" using "7.prems"(5) by simp
  have inv: "\<forall>ke\<in>set (pending ?w). now - Time (snd ke) < debounce ?w"
    using "7.prems"(1,2) unsettled_age
    by (auto simp: flushPending_pending flushPending_fields)
  have srt: "sorted (now # clock_readings ins)" using "7.prems"(4) by simp
  have old: "\<forall>te\<in>set (dispatched ?w). debounce ?w \<le> fst te - Time (snd te)
        \<and> fst te - Time (snd te) < debounce ?w + flush ?w"
  proof
    fix te assume "te \<in> set (dispatched ?w)"
    then consider "te \<in> set (dispatched w)"
      | ke where "ke \<in> set (pending w)" "settled (debounce w) now ke" "te = (now, snd ke)"
      by (auto simp: flushPending_fields)
    then show "debounce ?w \<le> fst te - Time (snd te)
        \<and> fst te - Time (snd te) < debounce ?w + flush ?w"
    proof cases
      case 1
      then show ?thesis using "7.prems"(6) by (simp add: flushPending_fields)
    next
      case 2
      have lo: "debounce w \<le> now - Time (snd ke)"
        using "7.prems"(1,2) 2(2) by (rule settled_age)
      have "prev - Time (snd ke) < debounce w" using "7.prems"(3) 2(1) by blast
      then have hi: "now - Time (snd ke) < debounce w + flush w" using gap by linarith
      show ?thesis using lo hi 2(3) by (simp add: flushPending_fields)
    qed
  qed
  have "\<forall>te\<in>set (dispatched (fst (Watcher_Run ins ?w))). debounce ?w \<le> fst te - Time (snd te)
        \<and> fst te - Time (snd te) < debounce ?w + flush ?w"
    using "7.prems"(1,2,5) inv srt old
    by (intro "7.IH"[of now]) (simp_all add: flushPending_fields)
  then show ?case by (simp add: flushPending_fields)
qed simp_all

lemma lower_bound:
  "0 < debounce w \<Longrightarrow> debounce w \<le> maxDuration \<Longrightarrow>
   \<forall>te\<in>set (dispatched w). debounce w \<le> fst te - Time (snd te) \<Longrightarrow>
   \<forall>te\<in>set (dispatched (fst (Watcher_Run ins w))). debounce w \<le> fst te - Time (snd te)"
proof (induction ins w rule: Watcher_Run.induct)
  case (3 event now ins w)
  then show ?case by (simp add: handleEvent_fields)
next
  case (5 msg ins w)
  then show ?case by simp
next
  case (7 now ins w)
  let ?w = "flushPending now w"
  have "\<forall>te\<in>set (dispatched ?w). debounce ?w \<le> fst te - Time (snd te)"
    using "7.prems" settled_age by (auto simp: flushPending_fields)
  then have "\<forall>te\<in>set (dispatched (fst (Watcher_Run ins ?w))). debounce ?w \<le> fst te - Time (snd te)"
    using "7.prems"(1,2) by (intro "7.IH") (simp_all add: flushPending_fields)
  then show ?case by (simp add: flushPending_fields)
qed simp_all

lemma clock_readings_append:
  "clock_readings (xs @ ys) = clock_readings xs @ clock_readings ys"
  by (induction xs rule: clock_readings.induct) simp_all

lemma notif_times_append:
  "notif_times p (xs @ ys) = notif_times p xs @ notif_times p ys"
  by (induction xs rule: notif_times.induct) simp_all

lemma stamp_extend:
  "\<exists>pre post. seen = pre @ WFlushTick t # post \<and> Q pre
     \<Longrightarrow> \<exists>pre post. seen @ xs = pre @ WFlushTick t # post \<and> Q pre"
proof -
  assume "\<exists>pre post. seen = pre @ WFlushTick t # post \<and> Q pre"
  then obtain pre post where "seen = pre @ WFlushTick t # post" and q: "Q pre" by blast
  then have "seen @ xs = pre @ WFlushTick t # (post @ xs)" by simp
  then show ?thesis using q by blast
qed

lemma dispatched_stamp:
  "distinct (map fst (pending w)) \<Longrightarrow>
   \<forall>ke\<in>set (pending w). Path (snd ke) = fst ke \<and> notif_times (fst ke) seen \<noteq> []
       \<and> Time (snd ke) = last (notif_times (fst ke) seen) \<Longrightarrow>
   \<forall>te\<in>set (dispatched w). \<exists>pre post. seen = pre @ WFlushTick (fst te) # post
       \<and> (notif_times (Path (snd te)) pre \<noteq> []
          \<and> Time (snd te) = last (notif_times (Path (snd te)) pre)) \<Longrightarrow>
   \<forall>te\<in>set (dispatched (fst (Watcher_Run ins w))). \<exists>pre post. seen @ ins = pre @ WFlushTick (fst te) # post
       \<and> (notif_times (Path (snd te)) pre \<noteq> []
          \<and> Time (snd te) = last (notif_times (Path (snd te)) pre))"
proof (induction ins w arbitrary: seen rule: Watcher_Run.induct)
  case (1 w)
  then show ?case by simp
next
  case (2 e ins w)
  then show ?case using stamp_extend by fastforce
next
  case (3 event now ins w)
  let ?w = "handleEvent event now w"
  let ?seen = "seen @ [WEvent event now]"
  have dist: "distinct (map fst (pending ?w))"
    using "3.prems"(1) by (simp add: handleEvent_pending distinct_update)
  have p: "\<forall>ke\<in>set (pending ?w). Path (snd ke) = fst ke \<and> notif_times (fst ke) ?seen \<noteq> []
       \<and> Time (snd ke) = last (notif_times (fst ke) ?seen)"
  proof
    fix ke assume in_w: "ke \<in> set (pending ?w)"
    show "Path (snd ke) = fst ke \<and> notif_times (fst ke) ?seen \<noteq> []
       \<and> Time (snd ke) = last (notif_times (fst ke) ?seen)"
    proof (cases "fsn_Op event AND (Create OR Write OR Rename) = 0")
      case True
      then have "ke \<in> set (pending w)" using in_w by (simp add: handleEvent_pending)
      then show ?thesis using "3.prems"(2) True by (simp add: notif_times_append)
    next
      case False
      then have "ke \<in> set (AList.update (fsn_Name event)
             \<lparr>Path = fsn_Name event, Op = fsn_Op event, Time = now\<rparr> (pending w))"
        using in_w by (simp add: handleEvent_pending)
      then have "ke = (fsn_Name event, \<lparr>Path = fsn_Name event, Op = fsn_Op event, Time = now\<rparr>)
          \<or> (ke \<in> set (pending w) \<and> fst ke \<noteq> fsn_Name event)"
        using "3.prems"(1) by (rule set_update_distinct[rotated])
      then show ?thesis using "3.prems"(2) False by (auto simp: notif_times_append)
    qed
  qed
  have q: "\<forall>te\<in>set (dispatched ?w). \<exists>pre post. ?seen = pre @ WFlushTick (fst te) # post
       \<and> (notif_times (Path (snd te)) pre \<noteq> []
          \<and> Time (snd te) = last (notif_times (Path (snd te)) pre))"
    using "3.prems"(3) stamp_extend by (fastforce simp: handleEvent_fields)
  have "\<forall>te\<in>set (dispatched (fst (Watcher_Run ins ?w))). \<exists>pre post. ?seen @ ins = pre @ WFlushTick (fst te) # post
       \<and> (notif_times (Path (snd te)) pre \<noteq> []
          \<and> Time (snd te) = last (notif_times (Path (snd te)) pre))"
    using dist p q by (rule "3.IH")
  then show ?case by simp
next
  case (4 ins w)
  then show ?case using stamp_extend by fastforce
next
  case (5 msg ins w)
  let ?w = "w\<lparr>w_logged := w_logged w @ [WatchError msg]\<rparr>"
  let ?seen = "seen @ [WError msg]"
  have dist: "distinct (map fst (pending ?w))" using "5.prems"(1) by simp
  have p: "\<forall>ke\<in>set (pending ?w). Path (snd ke) = fst ke \<and> notif_times (fst ke) ?seen \<noteq> []
       \<and> Time (snd ke) = last (notif_times (fst ke) ?seen)"
    using "5.prems"(2) by (simp add: notif_times_append)
  have q: "\<forall>te\<in>set (dispatched ?w). \<exists>pre post. ?seen = pre @ WFlushTick (fst te) # post
       \<and> (notif_times (Path (snd te)) pre \<noteq> []
          \<and> Time (snd te) = last (notif_times (Path (snd te)) pre))"
    using "5.prems"(3) stamp_extend by fastforce
  have "\<forall>te\<in>set (dispatched (fst (Watcher_Run ins ?w))). \<exists>pre post. ?seen @ ins = pre @ WFlushTick (fst te) # post
       \<and> (notif_times (Path (snd te)) pre \<noteq> []
          \<and> Time (snd te) = last (notif_times (Path (snd te)) pre))"
    using dist p q by (rule "5.IH")
  then show ?case by simp
next
  case (6 ins w)
  then show ?case using stamp_extend by fastforce
next
  case (7 now ins w)
  let ?w = "flushPending now w"
  let ?seen = "seen @ [WFlushTick now]"
  have dist: "distinct (map fst (pending ?w))"
    using "7.prems"(1) by (simp add: flushPending_pending distinct_map_filter)
  have p: "\<forall>ke\<in>set (pending ?w). Path (snd ke) = fst ke \<and> notif_times (fst ke) ?seen \<noteq> []
       \<and> Time (snd ke) = last (notif_times (fst ke) ?seen)"
    using "7.prems"(2) by (simp add: flushPending_pending notif_times_append)
  have q: "\<forall>te\<in>set (dispatched ?w). \<exists>pre post. ?seen = pre @ WFlushTick (fst te) # post
       \<and> (notif_times (Path (snd te)) pre \<noteq> []
          \<and> Time (snd te) = last (notif_times (Path (snd te)) pre))"
  proof
    fix te assume "te \<in> set (dispatched ?w)"
    then consider "te \<in> set (dispatched w)"
      | ke where "ke \<in> set (pending w)" "te = (now, snd ke)"
      by (auto simp: flushPending_fields)
    then show "\<exists>pre post. ?seen = pre @ WFlushTick (fst te) # post
       \<and> (notif_times (Path (snd te)) pre \<noteq> []
          \<and> Time (snd te) = last (notif_times (Path (snd te)) pre))"
    proof cases
      case 1
      then show ?thesis using "7.prems"(3) stamp_extend by fastforce
    next
      case 2
      have "?seen = seen @ WFlushTick (fst te) # []
         \<and> (notif_times (Path (snd te)) seen \<noteq> []
            \<and> Time (snd te) = last (notif_times (Path (snd te)) seen))"
        using 2 "7.prems"(2) by simp
      then show ?thesis by blast
    qed
  qed
  have "\<forall>te\<in>set (dispatched (fst (Watcher_Run ins ?w))). \<exists>pre post. ?seen @ ins = pre @ WFlushTick (fst te) # post
       \<and> (notif_times (Path (snd te)) pre \<noteq> []
          \<and> Time (snd te) = last (notif_times (Path (snd te)) pre))"
    using dist p q by (rule "7.IH")
  then show ?case by simp
qed

text \<open>
  C5 (as amended). Every event that a watcher made by \<open>NewWatcher\<close> dispatches is
  dispatched by a flush tick and carries the time of the last notification of kind
  Create, Write or Rename received for its path before that tick; the flush reads the
  clock no earlier than the debounce duration after that time. When the clock does not
  go back and every flush tick comes at most one flush interval after the tick before
  it (after the start of the loop for the first), the flush reads the clock less than
  the debounce duration plus one flush interval after that time. And when the clock
  does not go back, the flush reads it no earlier than the debounce duration after any
  of the notifications received for the path before the tick, the first included.
\<close>

theorem debounce_timing:
  "(pending w = [] \<and> dispatched w = [] \<and> 0 < debounce w \<and> debounce w \<le> maxDuration
      \<and> te \<in> set (dispatched (fst (Watcher_Run ins w)))
    \<longrightarrow> debounce w \<le> fst te - Time (snd te)
        \<and> (\<exists>pre post. ins = pre @ WFlushTick (fst te) # post
              \<and> notif_times (Path (snd te)) pre \<noteq> []
              \<and> Time (snd te) = last (notif_times (Path (snd te)) pre)))
   \<and> (pending w = [] \<and> dispatched w = [] \<and> 0 < debounce w \<and> debounce w \<le> maxDuration
      \<and> sorted (start # clock_readings ins) \<and> tick_gaps_ok (flush w) start ins
      \<and> te \<in> set (dispatched (fst (Watcher_Run ins w)))
    \<longrightarrow> fst te - Time (snd te) < debounce w + flush w)
   \<and> (pending w = [] \<and> dispatched w = [] \<and> 0 < debounce w \<and> debounce w \<le> maxDuration
      \<and> sorted (clock_readings ins)
      \<and> te \<in> set (dispatched (fst (Watcher_Run ins w)))
    \<longrightarrow> (\<forall>pre post t. ins = pre @ WFlushTick (fst te) # post
              \<and> Time (snd te) = last (notif_times (Path (snd te)) pre)
              \<and> t \<in> set (notif_times (Path (snd te)) pre)
            \<longrightarrow> debounce w \<le> fst te - t))"
proof (intro conjI impI allI)
  assume a: "pending w = [] \<and> dispatched w = [] \<and> 0 < debounce w \<and> debounce w \<le> maxDuration
      \<and> te \<in> set (dispatched (fst (Watcher_Run ins w)))"
  have "\<forall>te\<in>set (dispatched (fst (Watcher_Run ins w))). debounce w \<le> fst te - Time (snd te)"
    using a by (intro lower_bound) simp_all
  then show "debounce w \<le> fst te - Time (snd te)" using a by blast
  have "\<forall>te\<in>set (dispatched (fst (Watcher_Run ins w))). \<exists>pre post. [] @ ins = pre @ WFlushTick (fst te) # post
       \<and> (notif_times (Path (snd te)) pre \<noteq> []
          \<and> Time (snd te) = last (notif_times (Path (snd te)) pre))"
    using a by (intro dispatched_stamp) simp_all
  then show "\<exists>pre post. ins = pre @ WFlushTick (fst te) # post
              \<and> notif_times (Path (snd te)) pre \<noteq> []
              \<and> Time (snd te) = last (notif_times (Path (snd te)) pre)" using a by simp
next
  assume a: "pending w = [] \<and> dispatched w = [] \<and> 0 < debounce w \<and> debounce w \<le> maxDuration
      \<and> sorted (start # clock_readings ins) \<and> tick_gaps_ok (flush w) start ins
      \<and> te \<in> set (dispatched (fst (Watcher_Run ins w)))"
  have "\<forall>te\<in>set (dispatched (fst (Watcher_Run ins w))). debounce w \<le> fst te - Time (snd te)
        \<and> fst te - Time (snd te) < debounce w + flush w"
    using a by (intro timing_bounds[of w start]) simp_all
  then show "fst te - Time (snd te) < debounce w + flush w" using a by blast
next
  fix pre post t
  assume a: "pending w = [] \<and> dispatched w = [] \<and> 0 < debounce w \<and> debounce w \<le> maxDuration
      \<and> sorted (clock_readings ins)
      \<and> te \<in> set (dispatched (fst (Watcher_Run ins w)))"
    and b: "ins = pre @ WFlushTick (fst te) # post
      \<and> Time (snd te) = last (notif_times (Path (snd te)) pre)
      \<and> t \<in> set (notif_times (Path (snd te)) pre)"
  have "\<forall>te\<in>set (dispatched (fst (Watcher_Run ins w))). debounce w \<le> fst te - Time (snd te)"
    using a by (intro lower_bound) simp_all
  then have lo: "debounce w \<le> fst te - Time (snd te)" using a by blast
  have "sorted (clock_readings ins)" using a by simp
  then have "sorted (clock_readings pre)" using b by (simp add: clock_readings_append sorted_append)
  then have "sorted (notif_times (Path (snd te)) pre)" by (rule sorted_notif_times)
  then have "t \<le> last (notif_times (Path (snd te)) pre)" using b sorted_between by blast
  then show "debounce w \<le> fst te - t" using lo b by simp
qed

theorem debounce_timing_witness:
  "dispatched (fst (Watcher_Run
        [WEvent \<lparr>fsn_Name = ''/r/f'', fsn_Op = Write\<rparr> 0,
         WEvent \<lparr>fsn_Name = ''/r/f'', fsn_Op = Write\<rparr> 30,
         WFlushTick 50, WFlushTick 100, WFlushTick 150]
        (ex_watcher 100 50)))
     = [(150, \<lparr>Path = ''/r/f'', Op = Write, Time = 30\<rparr>)]
   \<and> (100::int) \<le> 150 - 30 \<and> (150::int) - 30 < 100 + 50"
  using debounce_timing[where w = "ex_watcher 100 50" and start = 0
      and te = "(150, \<lparr>Path = ''/r/f'', Op = Write, Time = 30\<rparr>)"
      and ins = "[WEvent \<lparr>fsn_Name = ''/r/f'', fsn_Op = Write\<rparr> 0,
         WEvent \<lparr>fsn_Name = ''/r/f'', fsn_Op = Write\<rparr> 30,
         WFlushTick 50, WFlushTick 100, WFlushTick 150]"]
  by (simp add: ex_wdefs op_defs maxDuration_def handleEvent_def flushPending_def settled_def
      time_Sub_def minDuration_def process_event_def Let_def)

text \<open>
  Measured from the first notification the upper bound fails: with a debounce duration
  of 100 and a flush interval of 50, notifications at 0 and 90 and ticks every 50, the
  event is dispatched at 200, later than 0 + 100 + 50.
\<close>

theorem debounce_timing_first_notification_counterexample:
  "dispatched (fst (Watcher_Run
        [WEvent \<lparr>fsn_Name = ''/r/f'', fsn_Op = Write\<rparr> 0,
         WFlushTick 50,
         WEvent \<lparr>fsn_Name = ''/r/f'', fsn_Op = Write\<rparr> 90,
         WFlushTick 100, WFlushTick 150, WFlushTick 200]
        (ex_watcher 100 50)))
     = [(200, \<lparr>Path = ''/r/f'', Op = Write, Time = 90\<rparr>)]
   \<and> debounce (ex_watcher 100 50) = 100 \<and> flush (ex_watcher 100 50) = 50
   \<and> \<not> ((200::int) \<le> 0 + 100 + 50)"
  by (simp add: ex_wdefs op_defs handleEvent_def flushPending_def settled_def
      time_Sub_def maxDuration_def minDuration_def process_event_def Let_def)

end
